theory Spec2Isabelle
  imports Main "HOL-Library.Word"
begin

unbundle bit_operations_syntax

section \<open>The alignment record\<close>

text \<open>
  A shallow embedding of \<^verbatim>\<open>bam_mate.c\<close> (samtools fixmate).  The packed
  \<^verbatim>\<open>bam1_t\<close> record of htslib is a fixed core followed by one byte buffer
  holding, in this order, the query name, the CIGAR array, the packed sequence, the
  base qualities and the auxiliary-tag stream.  The model keeps the five regions as
  five lists, so that \<^verbatim>\<open>n_cigar\<close>, \<^verbatim>\<open>l_qseq\<close> and
  \<^verbatim>\<open>l_data\<close> are lengths of lists and a \<^verbatim>\<open>memmove\<close> that
  shifts the regions behind the CIGAR is the replacement of one list.

  Coordinates (\<^verbatim>\<open>hts_pos_t\<close>, 64 bits) and reference ids are
  mathematical integers; the flag word, the mapping quality, CIGAR elements and
  buffer bytes are machine words.  The allocator is taken to succeed: the return
  paths of the source that are reached only when \<^verbatim>\<open>malloc\<close> or
  \<^verbatim>\<open>realloc\<close> yields NULL have no counterpart here.
\<close>

type_synonym u8 = "8 word"
type_synonym u16 = "16 word"
type_synonym u32 = "32 word"

record bam1 =
  tid :: int
  pos :: int
  flag :: u16
  qual :: u8
  mtid :: int
  mpos :: int
  isize :: int
  qname :: "u8 list"
  cigar :: "u32 list"
  seq :: "u8 list"
  bqual :: "u8 list"
  aux :: "u8 list"

definition l_data :: "bam1 \<Rightarrow> nat" where
  "l_data b = length (qname b) + 4 * length (cigar b) + length (seq b)
              + length (bqual b) + length (aux b)"

text \<open>Flag bits of \<^verbatim>\<open>htslib/sam.h\<close> (the SAM flag word).\<close>

definition BAM_FPAIRED :: u16 where "BAM_FPAIRED = 1"
definition BAM_FPROPER_PAIR :: u16 where "BAM_FPROPER_PAIR = 2"
definition BAM_FUNMAP :: u16 where "BAM_FUNMAP = 4"
definition BAM_FMUNMAP :: u16 where "BAM_FMUNMAP = 8"
definition BAM_FREVERSE :: u16 where "BAM_FREVERSE = 16"
definition BAM_FMREVERSE :: u16 where "BAM_FMREVERSE = 32"
definition BAM_FREAD1 :: u16 where "BAM_FREAD1 = 64"
definition BAM_FSECONDARY :: u16 where "BAM_FSECONDARY = 256"
definition BAM_FSUPPLEMENTARY :: u16 where "BAM_FSUPPLEMENTARY = 2048"

text \<open>The C test \<^verbatim>\<open>flag & MASK\<close> used as a condition.\<close>

definition tst :: "'a::len word \<Rightarrow> 'a word \<Rightarrow> bool" where
  "tst w m = (w AND m \<noteq> 0)"

subsection \<open>CIGAR elements\<close>

text \<open>
  The CIGAR macros of \<^verbatim>\<open>htslib/sam.h\<close>: an element is
  \<^verbatim>\<open>len << 4 | op\<close>; \<^verbatim>\<open>bam_cigar_type\<close> reads two bits per
  operation out of the constant \<^verbatim>\<open>0x3C1A7\<close>, bit 1 for "consumes query",
  bit 2 for "consumes reference".
\<close>

definition BAM_CMATCH :: u32 where "BAM_CMATCH = 0"
definition BAM_CDEL :: u32 where "BAM_CDEL = 2"
definition BAM_CSOFT_CLIP :: u32 where "BAM_CSOFT_CLIP = 4"
definition BAM_CHARD_CLIP :: u32 where "BAM_CHARD_CLIP = 5"
definition BAM_CEQUAL :: u32 where "BAM_CEQUAL = 7"
definition BAM_CDIFF :: u32 where "BAM_CDIFF = 8"

definition bam_cigar_op :: "u32 \<Rightarrow> u32" where
  "bam_cigar_op c = c AND 15"

definition bam_cigar_oplen :: "u32 \<Rightarrow> int" where
  "bam_cigar_oplen c = uint (drop_bit 4 c)"

definition bam_cigar_gen :: "int \<Rightarrow> u32 \<Rightarrow> u32" where
  "bam_cigar_gen l opc = push_bit 4 (word_of_int l) OR opc"

definition bam_cigar_type :: "u32 \<Rightarrow> u32" where
  "bam_cigar_type opc = drop_bit (2 * unat opc) (0x3C1A7 :: u32) AND 3"

definition consumes_ref :: "u32 \<Rightarrow> bool" where
  "consumes_ref c = tst (bam_cigar_type (bam_cigar_op c)) 2"

text \<open>
  \<^verbatim>\<open>bam_cigar2rlen\<close> and \<^verbatim>\<open>bam_endpos\<close> of htslib: the reference
  length of a CIGAR, and the end coordinate of an alignment, which counts one base
  for an unmapped record or an empty reference span.
\<close>

fun bam_cigar2rlen :: "u32 list \<Rightarrow> int" where
  "bam_cigar2rlen [] = 0"
| "bam_cigar2rlen (c # cs) =
     (if consumes_ref c then bam_cigar_oplen c else 0) + bam_cigar2rlen cs"

definition bam_endpos :: "bam1 \<Rightarrow> int" where
  "bam_endpos b =
     (let rlen = (if tst (flag b) BAM_FUNMAP then 0 else bam_cigar2rlen (cigar b));
          rlen = (if rlen = 0 then 1 else rlen)
      in pos b + rlen)"

section \<open>CIGAR trimming\<close>

datatype error =
    Out_Of_Bounds  \<comment> \<open>a write through \<^verbatim>\<open>new_cigar[j-1]\<close> with \<^verbatim>\<open>j = 0\<close>\<close>
  | Corrupt_Aux    \<comment> \<open>\<^verbatim>\<open>bam_aux_next\<close> failed with an errno other than ENOENT\<close>
  | Null_Deref     \<comment> \<open>a field access through a NULL record pointer\<close>
  | Assert_Failed  \<comment> \<open>\<^verbatim>\<open>assert(a->core.tid >= 0)\<close> aborted the program\<close>
  | Aux_Overflow   \<comment> \<open>\<^verbatim>\<open>bam_aux_append\<close> refused a record longer than INT32\_MAX\<close>
  | Read_Failed int \<comment> \<open>\<^verbatim>\<open>sam_read1\<close> returned a code below \<^verbatim>\<open>-1\<close>\<close>

text \<open>
  The first loop of \<^verbatim>\<open>bam_trim\<close>: walk the operations from index
  \<^verbatim>\<open>i\<close>, adding the length of each reference-consuming one to
  \<^verbatim>\<open>pos\<close>, and stop at the first whose end exceeds \<^verbatim>\<open>end\<close>.
  \<open>Some (i, pos)\<close> is the state at the \<^verbatim>\<open>break\<close>; \<open>None\<close>
  is the loop running out with \<^verbatim>\<open>i == n_cigar\<close>.
\<close>

fun trim_scan :: "u32 list \<Rightarrow> nat \<Rightarrow> int \<Rightarrow> int \<Rightarrow> (nat \<times> int) option" where
  "trim_scan [] i p e = None"
| "trim_scan (c # cs) i p e =
     (if \<not> consumes_ref c then trim_scan cs (Suc i) p e
      else if p + bam_cigar_oplen c > e then Some (i, p + bam_cigar_oplen c)
      else trim_scan cs (Suc i) (p + bam_cigar_oplen c) e)"

text \<open>
  The loop "Replace trailing elements": \<open>nc\<close> is \<^verbatim>\<open>new_cigar[0..j-1]\<close>.
  A hard clip is appended; any other operation is added to the length of the last
  element of \<open>nc\<close>, which the source addresses as \<^verbatim>\<open>new_cigar[j-1]\<close>
  without checking \<^verbatim>\<open>j\<close>.  The sum is formed in unsigned 32-bit arithmetic.
\<close>

fun replace_trailing :: "u32 list \<Rightarrow> u32 list \<Rightarrow> error + u32 list" where
  "replace_trailing [] nc = Inr nc"
| "replace_trailing (c # cs) nc =
     (if bam_cigar_op c = BAM_CHARD_CLIP then replace_trailing cs (nc @ [c])
      else if nc = [] then Inl Out_Of_Bounds
      else replace_trailing cs
             (butlast nc @
              [bam_cigar_gen (bam_cigar_oplen (last nc) + bam_cigar_oplen c) BAM_CSOFT_CLIP]))"

text \<open>
  \<^verbatim>\<open>bam_trim\<close>.  \<open>trim_split\<close> is the three-way branch on
  the operation at the break, which the scan guarantees to be inside the CIGAR
  (\<open>trim_scan_bound\<close> below); \<open>kept\<close> is \<^verbatim>\<open>cigar[0..old_i-1]\<close> and
  \<open>nc\<close> is \<^verbatim>\<open>new_cigar[0..j-1]\<close>; both arms of the final
  \<^verbatim>\<open>if (old_i+j == n_cigar)\<close> leave the CIGAR \<open>kept @ nc\<close>, the
  second also moving the regions behind it, which are separate lists here.
\<close>

definition trim_split :: "bam1 \<Rightarrow> int \<Rightarrow> nat \<Rightarrow> int \<Rightarrow> u32 list \<times> u32 list \<times> bam1" where
  "trim_split b e i p =
     (let c = cigar b ! i; opc = bam_cigar_op c; oplen = bam_cigar_oplen c
      in if p - oplen < e then
           (take i (cigar b) @ [bam_cigar_gen (e - (p - oplen)) opc],
            [bam_cigar_gen (p - e) BAM_CSOFT_CLIP], b)
         else if p > e then
           (take i (cigar b), [],
            b\<lparr>flag := (flag b OR BAM_FUNMAP) AND NOT BAM_FPROPER_PAIR\<rparr>)
         else
           (take i (cigar b), [bam_cigar_gen oplen BAM_CSOFT_CLIP], b))"

definition bam_trim :: "bam1 \<Rightarrow> int \<Rightarrow> error + bam1" where
  "bam_trim b e =
     (case trim_scan (cigar b) 0 (pos b) e of
        None \<Rightarrow> Inr b
      | Some (i, p) \<Rightarrow>
          (case trim_split b e i p of
             (kept, nc, b1) \<Rightarrow>
               (case replace_trailing (drop (Suc i) (cigar b)) nc of
                  Inl err \<Rightarrow> Inl err
                | Inr nc' \<Rightarrow> Inr (b1\<lparr>cigar := kept @ nc'\<rparr>))))"

section \<open>The auxiliary-tag stream\<close>

text \<open>
  The tag stream is a byte list; a pointer into it is an offset from its start.
  The accessors below are htslib's (\<^verbatim>\<open>sam.c\<close>, \<^verbatim>\<open>sam_internal.h\<close>),
  which \<^verbatim>\<open>bam_mate.c\<close> calls and does not define; they are written after
  htslib's code.  An accessor that returns NULL sets \<^verbatim>\<open>errno\<close> to ENOENT
  for "no more tags" and to EINVAL for a corrupt stream.
\<close>

datatype aux_ptr = At nat | ENOENT | EINVAL

definition aux_type2size :: "u8 \<Rightarrow> nat" where
  "aux_type2size t =
     (if t = 65 \<or> t = 99 \<or> t = 67 then 1
      else if t = 115 \<or> t = 83 then 2
      else if t = 105 \<or> t = 73 \<or> t = 102 then 4
      else if t = 100 then 8
      else if t = 90 \<or> t = 72 \<or> t = 66 then unat t
      else 0)"

definition le_to_u32 :: "u8 list \<Rightarrow> u32" where
  "le_to_u32 bs = ucast (bs ! 0) OR push_bit 8 (ucast (bs ! 1)) OR
                  push_bit 16 (ucast (bs ! 2)) OR push_bit 24 (ucast (bs ! 3))"

text \<open>
  \<^verbatim>\<open>skip_aux(s, end)\<close> on the bytes from \<^verbatim>\<open>s\<close> (a type code) to
  \<^verbatim>\<open>end\<close>: the offset of the byte after the value, \<open>None\<close> for NULL.
  The byte count of a \<^verbatim>\<open>B\<close> array is the product of the element size and
  the 32-bit element count, formed in unsigned 32-bit arithmetic.
\<close>

definition skip_aux :: "u8 list \<Rightarrow> nat option" where
  "skip_aux bs =
     (case bs of
        [] \<Rightarrow> Some 0
      | t # r \<Rightarrow>
          (let size = aux_type2size t in
           if size = 90 \<or> size = 72 then
             (let k = length (takeWhile (\<lambda>x. x \<noteq> 0) r)
              in Some (if k < length r then Suc (Suc k) else Suc (length r)))
           else if size = 66 then
             (if length r < 5 then None
              else
                (let sz = aux_type2size (r ! 0);
                     n = unat (word_of_nat sz * le_to_u32 (drop 1 r))
                 in if sz = 0 \<or> length r - 5 < n then None else Some (6 + n)))
           else if size = 0 then None
           else if length r < size then None
           else Some (Suc size)))"

definition bam_aux_first :: "u8 list \<Rightarrow> aux_ptr" where
  "bam_aux_first a = (if length a \<le> 2 then ENOENT else At 2)"

definition bam_aux_next :: "u8 list \<Rightarrow> nat \<Rightarrow> aux_ptr" where
  "bam_aux_next a s =
     (case skip_aux (drop s a) of
        None \<Rightarrow> EINVAL
      | Some k \<Rightarrow> (if length a \<le> s + k + 2 then ENOENT else At (s + k + 2)))"

text \<open>
  \<^verbatim>\<open>memmove(buf + dst, buf + src, n)\<close> inside one buffer: the bytes are
  read before any is written.
\<close>

definition memmove :: "u8 list \<Rightarrow> nat \<Rightarrow> nat \<Rightarrow> nat \<Rightarrow> u8 list" where
  "memmove buf dst src n =
     map (\<lambda>i. if dst \<le> i \<and> i < dst + n then buf ! (i - dst + src) else buf ! i)
       [0..<length buf]"

text \<open>
  \<^verbatim>\<open>bam_aux_get(b, tag)\<close>: walk the stream from the first tag; at the
  first entry with the key, check that its value is complete (and NUL-terminated for
  a string) and return the pointer to its type code.
\<close>

function aux_get_loop :: "u8 list \<Rightarrow> u8 \<Rightarrow> u8 \<Rightarrow> nat \<Rightarrow> aux_ptr" where
  "aux_get_loop a t0 t1 s =
     (if a ! (s - 2) = t0 \<and> a ! (s - 1) = t1 then
        (case skip_aux (drop s a) of
           None \<Rightarrow> EINVAL
         | Some k \<Rightarrow>
             (if (a ! s = 90 \<or> a ! s = 72) \<and> a ! (s + k - 1) \<noteq> 0 then EINVAL
              else At s))
      else
        (case bam_aux_next a s of
           At n \<Rightarrow> aux_get_loop a t0 t1 n
         | r \<Rightarrow> r))"
  by pat_completeness auto
termination
  by (relation "measure (\<lambda>(a, t0, t1, s). length a - s)")
     (auto simp: bam_aux_next_def split: option.splits if_splits)

declare aux_get_loop.simps [simp del]

definition bam_aux_get :: "u8 list \<Rightarrow> u8 \<Rightarrow> u8 \<Rightarrow> aux_ptr" where
  "bam_aux_get a t0 t1 =
     (case bam_aux_first a of
        At s \<Rightarrow> aux_get_loop a t0 t1 s
      | r \<Rightarrow> r)"

text \<open>
  \<^verbatim>\<open>bam_aux_del(b, s)\<close> cuts the entry whose type code is at \<open>s\<close> out
  of the stream (and leaves the record alone when the entry is corrupt);
  \<^verbatim>\<open>bam_aux_append\<close> adds an entry at the end unless the record would
  grow beyond INT32\_MAX bytes, and returns 0 or -1.
\<close>

definition bam_aux_del :: "bam1 \<Rightarrow> nat \<Rightarrow> bam1" where
  "bam_aux_del b s =
     (case skip_aux (drop s (aux b)) of
        None \<Rightarrow> b
      | Some k \<Rightarrow> b\<lparr>aux := take (s - 2) (aux b) @ drop (s + k) (aux b)\<rparr>)"

definition bam_aux_append :: "bam1 \<Rightarrow> u8 \<Rightarrow> u8 \<Rightarrow> u8 \<Rightarrow> nat \<Rightarrow> u8 list \<Rightarrow> bam1 \<times> int" where
  "bam_aux_append b t0 t1 ty len dat =
     (if int (l_data b) + 3 + int len > 2147483647 then (b, -1)
      else (b\<lparr>aux := aux b @ [t0, t1, ty] @ take len dat\<rparr>, 0))"

text \<open>The idiom "delete the tag if present" used before every append.\<close>

definition aux_del_tag :: "bam1 \<Rightarrow> u8 \<Rightarrow> u8 \<Rightarrow> bam1" where
  "aux_del_tag b t0 t1 =
     (case bam_aux_get (aux b) t0 t1 of
        At s \<Rightarrow> bam_aux_del b s
      | _ \<Rightarrow> b)"

definition u32_bytes :: "u32 \<Rightarrow> u8 list" where
  "u32_bytes w = [ucast w, ucast (drop_bit 8 w), ucast (drop_bit 16 w), ucast (drop_bit 24 w)]"

section \<open>The sanitizer\<close>

text \<open>
  Modelled from the spec: \<^verbatim>\<open>samtools.h\<close>, which defines the FIX macros, is
  not part of the source: the five fix categories {Position, MappingQuality, Unmap,
  Cigar, AuxTags} are distinct bits of the flags word and "All" enables all five.
\<close>

definition FIX_POS :: u32 where "FIX_POS = 2"
definition FIX_MQUAL :: u32 where "FIX_MQUAL = 4"
definition FIX_UNMAP :: u32 where "FIX_UNMAP = 8"
definition FIX_CIGAR :: u32 where "FIX_CIGAR = 16"
definition FIX_AUX :: u32 where "FIX_AUX = 32"
definition FIX_ALL :: u32 where "FIX_ALL = 255"

text \<open>\<^verbatim>\<open>XTAG(a)\<close> and the key test of the tag-removal loop.\<close>

definition XTAG :: "u8 \<Rightarrow> u8 \<Rightarrow> nat" where
  "XTAG k0 k1 = unat k0 * 256 + unat k1"

definition removed_key :: "nat \<Rightarrow> bool" where
  "removed_key key = (\<not> (key \<noteq> XTAG 78 77 \<and> key \<noteq> XTAG 77 68 \<and>
                          key \<noteq> XTAG 67 71 \<and> key \<noteq> XTAG 83 77))"

text \<open>
  The \<^verbatim>\<open>while (from)\<close> loop of \<^verbatim>\<open>bam_sanitize\<close>.  \<open>frm\<close> is
  \<^verbatim>\<open>from\<close> on entry of the body (after a key), \<open>to\<close> the write cursor;
  the result is the stream cut at the final \<^verbatim>\<open>to\<close>, which is what
  \<^verbatim>\<open>b->l_data = to - b->data\<close> leaves of it.
\<close>

function aux_filter_loop :: "u8 list \<Rightarrow> nat \<Rightarrow> nat \<Rightarrow> error + u8 list" where
  "aux_filter_loop buf frm to =
     (let nxt = bam_aux_next buf frm in
      if nxt = EINVAL then Inl Corrupt_Aux
      else
        (let from2 = frm - 2;
             key = unat (buf ! from2) * 256 + unat (buf ! (from2 + 1));
             len = (case nxt of At n \<Rightarrow> n - 2 | _ \<Rightarrow> length buf) - from2;
             buf' = (if \<not> removed_key key \<and> from2 \<noteq> to
                     then memmove buf to from2 len else buf);
             to' = (if \<not> removed_key key then to + len else to)
         in case nxt of
              At n \<Rightarrow> aux_filter_loop buf' n to'
            | _ \<Rightarrow> Inr (take to' buf')))"
  by pat_completeness auto
termination
  by (relation "measure (\<lambda>(buf, frm, to). length buf - frm)")
     (auto simp: bam_aux_next_def memmove_def split: option.splits if_splits)

declare aux_filter_loop.simps [simp del]

definition fix_aux :: "u8 list \<Rightarrow> error + u8 list" where
  "fix_aux a =
     (case bam_aux_first a of
        At frm \<Rightarrow> aux_filter_loop a frm (frm - 2)
      | _ \<Rightarrow> Inr a)"

text \<open>
  The block "Remove NM, MD, CG, SM tags" on a record: the tag stream is replaced by
  what the loop leaves of it, and the data length shrinks with it.
\<close>

definition sanitize_aux :: "bam1 \<Rightarrow> error + bam1" where
  "sanitize_aux b =
     (case fix_aux (aux b) of
        Inl err \<Rightarrow> Inl err
      | Inr a \<Rightarrow> Inr (b\<lparr>aux := a\<rparr>))"

text \<open>The three blocks of \<^verbatim>\<open>bam_sanitize\<close>, in source order.\<close>

definition sanitize_pos :: "bam1 \<Rightarrow> u32 \<Rightarrow> bam1" where
  "sanitize_pos b flags =
     (if tst flags FIX_POS \<and> tid b < 0 then
        (let b1 = b\<lparr>pos := -1\<rparr>
         in if tst flags FIX_UNMAP then b1\<lparr>flag := flag b1 OR BAM_FUNMAP\<rparr> else b1)
      else b)"

definition sanitize_cigar :: "(int \<Rightarrow> int) \<Rightarrow> bam1 \<Rightarrow> u32 \<Rightarrow> error + bam1" where
  "sanitize_cigar h b flags =
     (if tst flags FIX_CIGAR \<and> \<not> tst (flag b) BAM_FUNMAP then
        (if pos b < 0 \<and> tst flags FIX_UNMAP then
           Inr (b\<lparr>flag := flag b OR BAM_FUNMAP\<rparr>)
         else
           (let rlen = h (tid b) in
            if pos b \<ge> rlen \<and> tst flags FIX_UNMAP then
              (let b1 = b\<lparr>flag := flag b OR BAM_FUNMAP\<rparr>
               in Inr (if tst flags FIX_POS then b1\<lparr>tid := -1, pos := -1\<rparr> else b1))
            else if bam_endpos b > rlen then bam_trim b rlen
            else Inr b))
      else Inr b)"

definition sanitize_unmapped :: "bam1 \<Rightarrow> u32 \<Rightarrow> error + bam1" where
  "sanitize_unmapped b flags =
     (if tst (flag b) BAM_FUNMAP then
        (let b1 = (if tst flags FIX_CIGAR \<and> length (cigar b) > 0
                   then b\<lparr>cigar := []\<rparr> else b);
             b2 = (if tst flags FIX_MQUAL then b1\<lparr>qual := 0\<rparr> else b1)
         in if tst flags FIX_AUX then sanitize_aux b2 else Inr b2)
      else Inr b)"

text \<open>
  \<^verbatim>\<open>bam_sanitize(h, b, flags)\<close>; the header \<open>h\<close> is the reference-length
  lookup \<^verbatim>\<open>sam_hdr_tid2len\<close>.
\<close>

definition bam_sanitize :: "(int \<Rightarrow> int) \<Rightarrow> bam1 \<Rightarrow> u32 \<Rightarrow> error + bam1" where
  "bam_sanitize h b flags =
     (case sanitize_cigar h (sanitize_pos b flags) flags of
        Inl err \<Rightarrow> Inl err
      | Inr b1 \<Rightarrow> sanitize_unmapped b1 flags)"

section \<open>The mate synchronizer\<close>

definition sync_unmapped_pos_inner :: "bam1 \<Rightarrow> bam1 \<Rightarrow> bam1" where
  "sync_unmapped_pos_inner src dest =
     (if tst (flag dest) BAM_FUNMAP \<and> \<not> tst (flag src) BAM_FUNMAP
      then dest\<lparr>tid := tid src, pos := pos src\<rparr> else dest)"

definition sync_mate_inner :: "bam1 \<Rightarrow> bam1 \<Rightarrow> bam1" where
  "sync_mate_inner src dest =
     (let d1 = dest\<lparr>mtid := tid src, mpos := pos src\<rparr>;
          d2 = (if tst (flag src) BAM_FREVERSE
                then d1\<lparr>flag := flag d1 OR BAM_FMREVERSE\<rparr>
                else d1\<lparr>flag := flag d1 AND NOT BAM_FMREVERSE\<rparr>)
      in if tst (flag src) BAM_FUNMAP then d2\<lparr>flag := flag d2 OR BAM_FMUNMAP\<rparr> else d2)"

text \<open>
  \<^verbatim>\<open>plausibly_properly_paired\<close>; the \<^verbatim>\<open>assert\<close> aborts when two
  mapped records are met of which the first has no reference.
\<close>

definition plausibly_properly_paired :: "bam1 \<Rightarrow> bam1 \<Rightarrow> error + bool" where
  "plausibly_properly_paired a b =
     (if tst (flag a) BAM_FUNMAP \<or> tst (flag b) BAM_FUNMAP then Inr False
      else if \<not> tid a \<ge> 0 then Inl Assert_Failed
      else if tid a \<noteq> tid b then Inr False
      else
        (let a_pos = (if tst (flag a) BAM_FREVERSE then bam_endpos a else pos a);
             b_pos = (if tst (flag b) BAM_FREVERSE then bam_endpos b else pos b);
             (first, second) = (if a_pos > b_pos then (b, a) else (a, b))
         in Inr (\<not> tst (flag first) BAM_FREVERSE \<and> tst (flag second) BAM_FREVERSE)))"

text \<open>
  \<^verbatim>\<open>kputw\<close> writes a C \<^verbatim>\<open>int\<close> in decimal; \<^verbatim>\<open>bam_cigar_opchr\<close>
  indexes the string \<^verbatim>\<open>MIDNSHP=XB??????\<close>.
\<close>

fun dec_digits :: "nat \<Rightarrow> u8 list" where
  "dec_digits n =
     (if n < 10 then [48 + of_nat n] else dec_digits (n div 10) @ [48 + of_nat (n mod 10)])"

declare dec_digits.simps [simp del]

definition kputw :: "int \<Rightarrow> u8 list" where
  "kputw c = (if c < 0 then 45 # dec_digits (nat (- c)) else dec_digits (nat c))"

definition bam_cigar_opchr :: "u32 \<Rightarrow> u8" where
  "bam_cigar_opchr c =
     [77, 73, 68, 78, 83, 72, 80, 61, 88, 66, 63, 63, 63, 63, 63, 63] ! unat (bam_cigar_op c)"

definition cigar_chars :: "u32 list \<Rightarrow> u8 list" where
  "cigar_chars cs = concat (map (\<lambda>c. kputw (bam_cigar_oplen c) @ [bam_cigar_opchr c]) cs)"

definition bam_format_cigar :: "bam1 \<Rightarrow> u8 list" where
  "bam_format_cigar b = (if length (cigar b) = 0 then [42] else cigar_chars (cigar b))"

text \<open>
  \<^verbatim>\<open>sync_mq_mc(src, dest)\<close>: the tags MQ (77, 81) of type \<^verbatim>\<open>i\<close> (105)
  and MC (77, 67) of type \<^verbatim>\<open>Z\<close> (90).  The four bytes of \<^verbatim>\<open>mq\<close> are
  copied in host order, taken little-endian.  The results of
  \<^verbatim>\<open>bam_aux_del\<close> and \<^verbatim>\<open>bam_aux_append\<close> are not looked at by the
  source, and \<^verbatim>\<open>bam_format_cigar\<close> fails only when memory runs out, so the
  function returns 0 and only the new \<open>dest\<close> is given.
\<close>

definition sync_mq_mc :: "bam1 \<Rightarrow> bam1 \<Rightarrow> bam1" where
  "sync_mq_mc src dest =
     (let d1 = (if \<not> tst (flag src) BAM_FUNMAP then
                  fst (bam_aux_append (aux_del_tag dest 77 81) 77 81 105 4
                         (u32_bytes (ucast (qual src))))
                else dest)
      in if \<not> tst (flag src) BAM_FUNMAP \<or> \<not> tst (flag d1) BAM_FUNMAP then
           (let mc = bam_format_cigar src
            in fst (bam_aux_append (aux_del_tag d1 77 67) 77 67 90 (length mc + 1) (mc @ [0])))
         else d1)"

text \<open>\<^verbatim>\<open>sync_mate(a, b)\<close>, returning the new \<open>a\<close> and \<open>b\<close>.\<close>

definition sync_mate :: "bam1 \<Rightarrow> bam1 \<Rightarrow> bam1 \<times> bam1" where
  "sync_mate a b =
     (let b1 = sync_unmapped_pos_inner a b;
          a1 = sync_unmapped_pos_inner b1 a;
          b2 = sync_mate_inner a1 b1;
          a2 = sync_mate_inner b2 a1;
          b3 = sync_mq_mc a2 b2;
          a3 = sync_mq_mc b3 a2
      in (a3, b3))"

definition MD_MIN_QUALITY :: u8 where "MD_MIN_QUALITY = 15"

definition calc_mate_score :: "bam1 \<Rightarrow> u32" where
  "calc_mate_score b =
     foldl (\<lambda>score q. if q \<ge> MD_MIN_QUALITY then score + ucast q else score) 0 (bqual b)"

text \<open>\<^verbatim>\<open>add_mate_score(src, dest)\<close>: the tag ms (109, 115).\<close>

definition add_mate_score :: "bam1 \<Rightarrow> bam1 \<Rightarrow> error + bam1" where
  "add_mate_score src dest =
     (case bam_aux_append (aux_del_tag dest 109 115) 109 115 105 4
             (u32_bytes (calc_mate_score src)) of
        (d, rc) \<Rightarrow> if rc = -1 then Inl Aux_Overflow else Inr d)"

text \<open>
  \<^verbatim>\<open>bam_template_cigar(b1, b2, str)\<close>: the tag ct (99, 116) on the record
  with the smaller position.  The pair is returned in the order it was given.  The
  gap is passed to \<^verbatim>\<open>kputw\<close>, which takes a 32-bit \<^verbatim>\<open>int\<close>.
\<close>

definition template_cigar_str :: "bam1 \<Rightarrow> bam1 \<Rightarrow> u8 list" where
  "template_cigar_str b1 b2 =
     [if tst (flag b1) BAM_FREAD1 then 49 else 50, if tst (flag b1) BAM_FREVERSE then 82 else 70]
     @ cigar_chars (cigar b1)
     @ kputw (sint (word_of_int (pos b2 - bam_endpos b1) :: u32)) @ [84]
     @ [if tst (flag b2) BAM_FREAD1 then 49 else 50, if tst (flag b2) BAM_FREVERSE then 82 else 70]
     @ cigar_chars (cigar b2)"

definition bam_template_cigar :: "bam1 \<Rightarrow> bam1 \<Rightarrow> bam1 \<times> bam1" where
  "bam_template_cigar b1 b2 =
     (if tid b1 \<noteq> tid b2 \<or> tid b1 < 0 \<or> pos b1 < 0 \<or> pos b2 < 0 \<or>
         tst (flag b1) BAM_FUNMAP \<or> tst (flag b2) BAM_FUNMAP then (b1, b2)
      else
        (let swap = (pos b1 > pos b2);
             lo = (if swap then b2 else b1);
             hi = (if swap then b1 else b2);
             str = template_cigar_str lo hi;
             lo1 = aux_del_tag lo 99 116;
             hi1 = aux_del_tag hi 99 116;
             lo2 = fst (bam_aux_append lo1 99 116 90 (length str + 1) (str @ [0]))
         in if swap then (hi1, lo2) else (lo2, hi1)))"

section \<open>The template orchestrator\<close>

record config =
  remove_reads :: bool
  proper_pair_check :: bool
  add_ct :: bool
  do_mate_scoring :: bool

definition PAIR_FLAGS :: u16 where
  "PAIR_FLAGS = BAM_FPAIRED OR BAM_FMREVERSE OR BAM_FPROPER_PAIR"

definition set_isize :: "bam1 \<Rightarrow> bam1 \<Rightarrow> int \<Rightarrow> int \<Rightarrow> bam1 \<times> bam1" where
  "set_isize pre cur pre_end cur_end =
     (if tid pre = tid cur \<and> \<not> tst (flag cur) (BAM_FUNMAP OR BAM_FMUNMAP)
         \<and> \<not> tst (flag pre) (BAM_FUNMAP OR BAM_FMUNMAP) then
        (let cur5 = (if tst (flag cur) BAM_FREVERSE then cur_end else pos cur);
             pre5 = (if tst (flag pre) BAM_FREVERSE then pre_end else pos pre)
         in (pre\<lparr>isize := cur5 - pre5\<rparr>, cur\<lparr>isize := pre5 - cur5\<rparr>))
      else (pre\<lparr>isize := 0\<rparr>, cur\<lparr>isize := 0\<rparr>))"

definition check_proper :: "config \<Rightarrow> bam1 \<Rightarrow> bam1 \<Rightarrow> error + bam1 \<times> bam1" where
  "check_proper cfg pre cur =
     (if proper_pair_check cfg then
        (case plausibly_properly_paired pre cur of
           Inl err \<Rightarrow> Inl err
         | Inr ok \<Rightarrow>
             Inr (if \<not> ok
                  then (pre\<lparr>flag := flag pre AND NOT BAM_FPROPER_PAIR\<rparr>,
                        cur\<lparr>flag := flag cur AND NOT BAM_FPROPER_PAIR\<rparr>)
                  else (pre, cur)))
      else Inr (pre, cur))"

definition mate_scores :: "config \<Rightarrow> bam1 \<Rightarrow> bam1 \<Rightarrow> error + bam1 \<times> bam1" where
  "mate_scores cfg pre cur =
     (if do_mate_scoring cfg then
        (case add_mate_score pre cur of
           Inl err \<Rightarrow> Inl err
         | Inr cur1 \<Rightarrow>
             (case add_mate_score cur1 pre of
                Inl err \<Rightarrow> Inl err
              | Inr pre1 \<Rightarrow> Inr (pre1, cur1)))
      else Inr (pre, cur))"

definition orphan_flags :: "config \<Rightarrow> bam1 \<Rightarrow> bam1 \<Rightarrow> bam1 \<times> bam1" where
  "orphan_flags cfg pre cur =
     (if remove_reads cfg then
        (let cur1 = (if tst (flag pre) BAM_FUNMAP
                     then cur\<lparr>flag := flag cur AND NOT PAIR_FLAGS\<rparr> else cur);
             pre1 = (if tst (flag cur1) BAM_FUNMAP
                     then pre\<lparr>flag := flag pre AND NOT PAIR_FLAGS\<rparr> else pre)
         in (pre1, cur1))
      else (pre, cur))"

text \<open>
  The body of the loop "Find and fix up primary alignments" from the assignment of
  \<^verbatim>\<open>cur\<close> on, for the records \<open>pre\<close> and \<open>cur\<close> and the end
  coordinates the loop has stored for them.
\<close>

definition pair_fix :: "config \<Rightarrow> bam1 \<Rightarrow> bam1 \<Rightarrow> int \<Rightarrow> int \<Rightarrow> error + bam1 \<times> bam1" where
  "pair_fix cfg pre cur pre_end cur_end =
     (case sync_mate (pre\<lparr>flag := flag pre OR BAM_FPAIRED\<rparr>)
                     (cur\<lparr>flag := flag cur OR BAM_FPAIRED\<rparr>) of
        (pre1, cur1) \<Rightarrow>
          (case set_isize pre1 cur1 pre_end cur_end of
             (pre2, cur2) \<Rightarrow>
               (case (if add_ct cfg then bam_template_cigar pre2 cur2 else (pre2, cur2)) of
                  (pre3, cur3) \<Rightarrow>
                    (case check_proper cfg pre3 cur3 of
                       Inl err \<Rightarrow> Inl err
                     | Inr (pre4, cur4) \<Rightarrow>
                         (case mate_scores cfg pre4 cur4 of
                            Inl err \<Rightarrow> Inl err
                          | Inr (pre5, cur5) \<Rightarrow> Inr (orphan_flags cfg pre5 cur5))))))"

definition end_of :: "bam1 \<Rightarrow> int" where
  "end_of b = (if \<not> tst (flag b) BAM_FUNMAP then bam_endpos b else 0)"

text \<open>
  The loop over \<^verbatim>\<open>n\<close>, run on the list of the indices still to visit.
  \<open>pre\<close> and \<open>cur\<close> are the pointers of the source as indices into
  \<^verbatim>\<open>bs.b\<close> (\<open>None\<close> for NULL); \<open>pre_end\<close> is stored when
  \<open>pre\<close> is chosen and never again.
\<close>

fun fix_primaries ::
  "config \<Rightarrow> nat list \<Rightarrow> bam1 list \<Rightarrow> nat option \<Rightarrow> int \<Rightarrow> nat option
     \<Rightarrow> error + bam1 list \<times> nat option \<times> nat option" where
  "fix_primaries cfg [] b pre pre_end cur = Inr (b, pre, cur)"
| "fix_primaries cfg (n # ns) b pre pre_end cur =
     (if tst (flag (b ! n)) (BAM_FSECONDARY OR BAM_FSUPPLEMENTARY)
      then fix_primaries cfg ns b pre pre_end cur
      else
        (case pre of
           None \<Rightarrow> fix_primaries cfg ns b (Some n) (end_of (b ! n)) cur
         | Some p \<Rightarrow>
             (case pair_fix cfg (b ! p) (b ! n) pre_end (end_of (b ! n)) of
                Inl err \<Rightarrow> Inl err
              | Inr (pre', cur') \<Rightarrow>
                  fix_primaries cfg ns (b[p := pre', n := cur']) (Some p) pre_end (Some n))))"

text \<open>
  "Handle unpaired primary data": the source tests \<^verbatim>\<open>cur\<close> only and then
  writes through \<^verbatim>\<open>pre\<close>.
\<close>

definition unpaired_fix :: "bam1 list \<Rightarrow> nat option \<Rightarrow> nat option \<Rightarrow> error + bam1 list" where
  "unpaired_fix b pre cur =
     (if cur = None then
        (case pre of
           None \<Rightarrow> Inl Null_Deref
         | Some p \<Rightarrow>
             Inr (b[p := (b ! p)\<lparr>mtid := -1, mpos := -1, isize := 0,
                                 flag := flag (b ! p) AND NOT PAIR_FLAGS\<rparr>]))
      else Inr b)"

text \<open>
  One pass of the \<^verbatim>\<open>while\<close> body over a fetched template: the records
  \<^verbatim>\<open>bs.b[0..bs.n-1]\<close> after the fixes, and what is written of them.
\<close>

definition fix_template :: "config \<Rightarrow> bam1 list \<Rightarrow> nat \<Rightarrow> error + bam1 list" where
  "fix_template cfg b n =
     (case fix_primaries cfg [0..<n] b None 0 None of
        Inl err \<Rightarrow> Inl err
      | Inr (b1, pre, cur) \<Rightarrow> unpaired_fix b1 pre cur)"

definition written :: "config \<Rightarrow> bam1 list \<Rightarrow> nat \<Rightarrow> bam1 list" where
  "written cfg b n =
     filter (\<lambda>r. \<not> (remove_reads cfg \<and> tst (flag r) (BAM_FSECONDARY OR BAM_FUNMAP)))
       (take n b)"

section \<open>The template batch reader\<close>

text \<open>
  The input is the list of the records that \<^verbatim>\<open>sam_read1\<close> will deliver,
  followed by a clean end of file (return code \<^verbatim>\<open>-1\<close>) or, when
  \<open>truncated\<close>, by a read error (return code \<^verbatim>\<open>-2\<close>).
\<close>

record instream =
  pending :: "bam1 list"
  truncated :: bool

record bam_set =
  bs_b :: "bam1 list"
  bs_n :: nat
  bs_ba :: nat
  bs_next :: int
  bs_eof :: bool

definition bam_zero :: bam1 where
  "bam_zero = \<lparr>tid = 0, pos = 0, flag = 0, qual = 0, mtid = 0, mpos = 0, isize = 0,
               qname = [], cigar = [], seq = [], bqual = [], aux = []\<rparr>"

text \<open>
  \<^verbatim>\<open>grow_b_array\<close>: the array is the list of its \<^verbatim>\<open>ba\<close> initialised
  elements; growing appends zeroed records.
\<close>

definition grow_b_array :: "bam1 list \<Rightarrow> nat \<Rightarrow> nat \<Rightarrow> bam1 list \<times> nat" where
  "grow_b_array b ba n =
     (if n < ba then (b, ba) else (b @ replicate (n - ba) bam_zero, n))"

text \<open>\<^verbatim>\<open>strcmp\<close> reads a name up to its first NUL.\<close>

definition c_str :: "u8 list \<Rightarrow> u8 list" where
  "c_str q = takeWhile (\<lambda>x. x \<noteq> 0) q"

text \<open>
  The \<^verbatim>\<open>for (;;)\<close> loop of \<^verbatim>\<open>next_template\<close>, by recursion on
  the records still to be read.  After every read the source sanitizes
  \<^verbatim>\<open>bs->b[0]\<close>.  A failure of the sanitizer, which the source turns into
  the return code \<^verbatim>\<open>-2\<close>, and a read error are results \<open>Inl\<close>.
\<close>

fun read_group ::
  "(int \<Rightarrow> int) \<Rightarrow> u32 \<Rightarrow> u8 list \<Rightarrow> bool \<Rightarrow> bam1 list \<Rightarrow> bam1 list \<Rightarrow> nat \<Rightarrow> nat
     \<Rightarrow> error + bam_set \<times> instream" where
  "read_group h fl name tr [] b n ba =
     (case grow_b_array b ba (n + 1) of
        (b1, ba1) \<Rightarrow>
          if tr then Inl (Read_Failed (-2))
          else
            (case bam_sanitize h (b1 ! 0) fl of
               Inl err \<Rightarrow> Inl err
             | Inr b0 \<Rightarrow>
                 Inr (\<lparr>bs_b = b1[0 := b0], bs_n = n, bs_ba = ba1, bs_next = -1, bs_eof = True\<rparr>,
                      \<lparr>pending = [], truncated = tr\<rparr>)))"
| "read_group h fl name tr (r # rs) b n ba =
     (case grow_b_array b ba (n + 1) of
        (b1, ba1) \<Rightarrow>
          (case bam_sanitize h ((b1[n := r]) ! 0) fl of
             Inl err \<Rightarrow> Inl err
           | Inr b0 \<Rightarrow>
               (let b2 = (b1[n := r])[0 := b0]
                in if c_str name \<noteq> c_str (qname (b2 ! n)) then
                     Inr (\<lparr>bs_b = b2, bs_n = n, bs_ba = ba1, bs_next = int n, bs_eof = False\<rparr>,
                          \<lparr>pending = rs, truncated = tr\<rparr>)
                   else read_group h fl name tr rs b2 (n + 1) ba1)))"

text \<open>
  The first part of \<^verbatim>\<open>next_template\<close>: on the first call one record is
  read into slot 0 and sanitized, later the record read ahead is swapped into slot 0.
  \<open>Done\<close> is the early \<^verbatim>\<open>return result\<close> after a failed first read.
\<close>

datatype primed =
    Done int "bam1 list" nat
  | Primed "bam1 list" nat "bam1 list"

definition prime_template ::
  "(int \<Rightarrow> int) \<Rightarrow> u32 \<Rightarrow> bam_set \<Rightarrow> instream \<Rightarrow> error + primed" where
  "prime_template h fl bs inp =
     (if bs_next bs < 0 then
        (case grow_b_array (bs_b bs) (bs_ba bs) 1 of
           (b1, ba1) \<Rightarrow>
             (case pending inp of
                [] \<Rightarrow> Inr (Done (if truncated inp then -2 else -1) b1 ba1)
              | r # rs \<Rightarrow>
                  (case bam_sanitize h r fl of
                     Inl err \<Rightarrow> Inl err
                   | Inr b0 \<Rightarrow> Inr (Primed (b1[0 := b0]) ba1 rs))))
      else
        Inr (Primed ((bs_b bs)[0 := bs_b bs ! nat (bs_next bs),
                               nat (bs_next bs) := bs_b bs ! 0])
               (bs_ba bs) (pending inp)))"

text \<open>
  \<^verbatim>\<open>next_template\<close>: the return code with the new reader state and the
  rest of the input.
\<close>

definition next_template ::
  "(int \<Rightarrow> int) \<Rightarrow> u32 \<Rightarrow> bam_set \<Rightarrow> instream \<Rightarrow> error + int \<times> bam_set \<times> instream" where
  "next_template h fl bs inp =
     (if bs_eof bs then Inr (-1, bs, inp)
      else
        (case prime_template h fl bs inp of
           Inl err \<Rightarrow> Inl err
         | Inr (Done code b1 ba1) \<Rightarrow>
             if code < -1 then Inl (Read_Failed code)
             else Inr (code, bs\<lparr>bs_b := b1, bs_ba := ba1\<rparr>, inp)
         | Inr (Primed b1 ba1 rs) \<Rightarrow>
             (case read_group h fl (qname (b1 ! 0)) (truncated inp) rs b1 1 ba1 of
                Inl err \<Rightarrow> Inl err
              | Inr (bs2, inp2) \<Rightarrow> Inr (int (bs_n bs2), bs2, inp2))))"

section \<open>The main loop\<close>

text \<open>
  The \<^verbatim>\<open>while\<close> loop of \<^verbatim>\<open>bam_mating_core\<close>, from the first call
  of \<^verbatim>\<open>next_template\<close> on; reading and writing the header come before it
  and touch no record.  The result is the list of the records written, in order;
  \<^verbatim>\<open>sam_write1\<close> is taken to succeed.  \<open>Inl\<close> stands for the paths
  that leave the function with the value 1, and for the program being aborted.
\<close>

function core_loop ::
  "config \<Rightarrow> (int \<Rightarrow> int) \<Rightarrow> u32 \<Rightarrow> bam_set \<Rightarrow> instream \<Rightarrow> bam1 list \<Rightarrow> error + bam1 list" where
  "core_loop cfg h fl bs inp out =
     (case next_template h fl bs inp of
        Inl err \<Rightarrow> Inl err
      | Inr (result, bs1, inp1) \<Rightarrow>
          if result \<ge> 0 then
            (case fix_template cfg (bs_b bs1) (bs_n bs1) of
               Inl err \<Rightarrow> Inl err
             | Inr b1 \<Rightarrow>
                 core_loop cfg h fl (bs1\<lparr>bs_b := b1\<rparr>) inp1 (out @ written cfg b1 (bs_n bs1)))
          else Inr out)"
  by pat_completeness auto

text \<open>
  Every call of the reader that returns a template either takes a record from the
  input or finds the input empty and sets the end-of-file mark, after which the next
  call returns \<^verbatim>\<open>-1\<close>: the loop ends.
\<close>

lemma read_group_progress:
  "read_group h fl name tr rs b n ba = Inr (bs2, inp2) \<Longrightarrow>
     length (pending inp2) < length rs \<or> (rs = [] \<and> pending inp2 = [] \<and> bs_eof bs2)"
proof (induction rs arbitrary: b n ba)
  case Nil
  then show ?case by (auto split: prod.splits sum.splits if_splits)
next
  case (Cons r rs)
  obtain b1 ba1 where g: "grow_b_array b ba (n + 1) = (b1, ba1)" by (cases "grow_b_array b ba (n + 1)")
  from Cons.prems g obtain b0 where s: "bam_sanitize h ((b1[n := r]) ! 0) fl = Inr b0"
    by (auto split: sum.splits)
  show ?case
  proof (cases "c_str name \<noteq> c_str (qname (((b1[n := r])[0 := b0]) ! n))")
    case True
    with Cons.prems g s show ?thesis by (auto simp: Let_def)
  next
    case False
    with Cons.prems g s
    have "read_group h fl name tr rs ((b1[n := r])[0 := b0]) (n + 1) ba1 = Inr (bs2, inp2)"
      by (auto simp: Let_def)
    from Cons.IH[OF this] show ?thesis by auto
  qed
qed

lemma prime_template_Done:
  "prime_template h fl bs inp = Inr (Done code b1 ba1) \<Longrightarrow> code < 0"
  by (auto simp: prime_template_def split: if_splits prod.splits list.splits sum.splits)

lemma next_template_progress:
  assumes "next_template h fl bs inp = Inr (result, bs1, inp1)" and "0 \<le> result"
  shows "length (pending inp1) < length (pending inp) \<or>
         (length (pending inp1) = length (pending inp) \<and> \<not> bs_eof bs \<and> bs_eof bs1)"
proof -
  from assms have ne: "\<not> bs_eof bs"
    by (auto simp: next_template_def split: if_splits)
  from assms ne obtain b1 ba1 rs bs2 inp2 where
    p: "prime_template h fl bs inp = Inr (Primed b1 ba1 rs)" and
    r: "read_group h fl (qname (b1 ! 0)) (truncated inp) rs b1 1 ba1 = Inr (bs2, inp2)" and
    e: "bs1 = bs2" "inp1 = inp2"
    by (auto simp: next_template_def split: sum.splits primed.splits if_splits
        dest: prime_template_Done)
  from p have "length rs \<le> length (pending inp)"
    by (auto simp: prime_template_def split: if_splits prod.splits list.splits sum.splits)
  with read_group_progress[OF r] e ne show ?thesis by auto
qed

termination core_loop
  apply (relation "measure (\<lambda>(cfg, h, fl, bs, inp, out).
                    2 * length (pending inp) + (if bs_eof bs then 0 else 1))")
   apply simp
  subgoal for cfg h fl bs inp out x2 result y bs1 inp1 b1
    using next_template_progress[of h fl bs inp result bs1 inp1] by auto
  done

declare core_loop.simps [simp del]

text \<open>\<^verbatim>\<open>bam_mating_core\<close> starts with \<^verbatim>\<open>bs = {NULL, 0, 0, -1, 0}\<close>.\<close>

definition bs_init :: bam_set where
  "bs_init = \<lparr>bs_b = [], bs_n = 0, bs_ba = 0, bs_next = -1, bs_eof = False\<rparr>"

definition bam_mating_core ::
  "config \<Rightarrow> (int \<Rightarrow> int) \<Rightarrow> u32 \<Rightarrow> instream \<Rightarrow> error + bam1 list" where
  "bam_mating_core cfg h fl inp = core_loop cfg h fl bs_init inp []"

section \<open>Well-formed tag streams\<close>

text \<open>
  The reading of the tag stream that the claims about tags are stated in: a tag
  entry is two key bytes, a type code and exactly the value that the type code
  announces, that is, \<^verbatim>\<open>skip_aux\<close> run on the entry alone consumes all of
  it, and a string value ends at its first NUL.  A well-formed stream is the
  concatenation of such entries.  The tags the sanitizer removes from an unmapped
  record are those keyed NM, MD, CG and SM.
\<close>

definition valid_tag :: "u8 list \<Rightarrow> bool" where
  "valid_tag e =
     (3 \<le> length e \<and> skip_aux (drop 2 e) = Some (length e - 2) \<and>
      (if e ! 2 = 90 \<or> e ! 2 = 72 then last e = 0 else True))"

definition removed_tag :: "u8 list \<Rightarrow> bool" where
  "removed_tag e = (take 2 e \<in> {[78, 77], [77, 68], [67, 71], [83, 77]})"

section \<open>Example records\<close>

text \<open>
  A read named \<^verbatim>\<open>r\<close> with mapping quality 30 and no sequence, given by its
  reference id, position, flag word, CIGAR and tag stream.
\<close>

definition mk_read :: "int \<Rightarrow> int \<Rightarrow> u16 \<Rightarrow> u32 list \<Rightarrow> u8 list \<Rightarrow> bam1" where
  "mk_read t p f c a =
     \<lparr>tid = t, pos = p, flag = f, qual = 30, mtid = -1, mpos = -1, isize = 0,
      qname = [114, 0], cigar = c, seq = [], bqual = [], aux = a\<rparr>"

text \<open>
  A tag stream with the entries NM:C:5, XX:Z:A, MD:Z:(empty), YY:i and SM:B:S of
  one element.
\<close>

definition ex_tags :: "u8 list list" where
  "ex_tags = [[78, 77, 67, 5], [88, 88, 90, 65, 0], [77, 68, 90, 0],
              [89, 89, 105, 1, 2, 3, 4], [83, 77, 66, 83, 1, 0, 0, 0, 9, 9]]"

text \<open>
  A configuration with every option off, and the insert sizes of a pair that
  \<open>pair_fix\<close> returns.
\<close>

definition isizes :: "error + bam1 \<times> bam1 \<Rightarrow> (int \<times> int) option" where
  "isizes r = (case r of Inl err \<Rightarrow> None | Inr (p, c) \<Rightarrow> Some (isize p, isize c))"

definition cfg_plain :: config where
  "cfg_plain = \<lparr>remove_reads = False, proper_pair_check = False, add_ct = False,
                 do_mate_scoring = False\<rparr>"

section \<open>Basic facts\<close>

lemmas flag_defs = BAM_FPAIRED_def BAM_FPROPER_PAIR_def BAM_FUNMAP_def BAM_FMUNMAP_def
  BAM_FREVERSE_def BAM_FMREVERSE_def BAM_FREAD1_def BAM_FSECONDARY_def
  BAM_FSUPPLEMENTARY_def

lemmas cigar_defs = bam_cigar_op_def bam_cigar_oplen_def bam_cigar_gen_def
  bam_cigar_type_def consumes_ref_def BAM_CMATCH_def BAM_CDEL_def BAM_CSOFT_CLIP_def
  BAM_CHARD_CLIP_def BAM_CEQUAL_def BAM_CDIFF_def

lemmas fix_defs = FIX_POS_def FIX_MQUAL_def FIX_UNMAP_def FIX_CIGAR_def FIX_AUX_def
  FIX_ALL_def

lemma tst_FIX_ALL:
  "tst FIX_ALL FIX_POS" "tst FIX_ALL FIX_MQUAL" "tst FIX_ALL FIX_UNMAP"
  "tst FIX_ALL FIX_CIGAR" "tst FIX_ALL FIX_AUX"
  by (simp_all add: tst_def fix_defs)

text \<open>Each flag mask is one bit of the flag word.\<close>

lemma tst_bit16:
  fixes w :: u16
  shows "tst w BAM_FPAIRED = bit w 0" "tst w BAM_FPROPER_PAIR = bit w 1"
    "tst w BAM_FUNMAP = bit w 2" "tst w BAM_FMUNMAP = bit w 3"
    "tst w BAM_FREVERSE = bit w 4" "tst w BAM_FMREVERSE = bit w 5"
    "tst w BAM_FREAD1 = bit w 6" "tst w BAM_FSECONDARY = bit w 8"
    "tst w BAM_FSUPPLEMENTARY = bit w 11"
  using and_exp_eq_0_iff_not_bit[of w 0] and_exp_eq_0_iff_not_bit[of w 1]
    and_exp_eq_0_iff_not_bit[of w 2] and_exp_eq_0_iff_not_bit[of w 3]
    and_exp_eq_0_iff_not_bit[of w 4] and_exp_eq_0_iff_not_bit[of w 5]
    and_exp_eq_0_iff_not_bit[of w 6] and_exp_eq_0_iff_not_bit[of w 8]
    and_exp_eq_0_iff_not_bit[of w 11]
  by (simp_all add: tst_def flag_defs)

lemma unmap_flag_set: "tst ((f OR BAM_FUNMAP) AND NOT BAM_FPROPER_PAIR) BAM_FUNMAP"
  by (simp add: tst_bit16 bit_simps) (simp add: flag_defs)

lemma proper_flag_clear:
  "\<not> tst ((f OR BAM_FUNMAP) AND NOT BAM_FPROPER_PAIR) BAM_FPROPER_PAIR"
  by (simp add: tst_bit16 bit_simps) (simp add: flag_defs)

lemma oplen_nonneg: "0 \<le> bam_cigar_oplen c"
  by (simp add: bam_cigar_oplen_def)

section \<open>Properties of the CIGAR trim\<close>

lemma trim_scan_bound:
  "trim_scan cs i p e = Some (k, q) \<Longrightarrow> i \<le> k \<and> k < i + length cs"
  by (induction cs i p e rule: trim_scan.induct) (auto split: if_splits)

text \<open>
  Where the scan breaks: at a reference-consuming operation whose end \<open>q\<close> is
  beyond the cutoff and whose start \<open>q - oplen\<close> is not before the start of the scan.
\<close>

lemma trim_scan_Some:
  "trim_scan cs k p e = Some (i, q) \<Longrightarrow>
     k \<le> i \<and> i - k < length cs \<and> consumes_ref (cs ! (i - k)) \<and> e < q \<and>
     p \<le> q - bam_cigar_oplen (cs ! (i - k))"
proof (induction cs k p e rule: trim_scan.induct)
  case (1 i p e)
  then show ?case by simp
next
  case (2 c cs k p e)
  show ?case
  proof (cases "consumes_ref c")
    case False
    with 2 have "trim_scan cs (Suc k) p e = Some (i, q)" by simp
    with 2(1)[OF False]
    have "Suc k \<le> i \<and> i - Suc k < length cs \<and> consumes_ref (cs ! (i - Suc k)) \<and>
          e < q \<and> p \<le> q - bam_cigar_oplen (cs ! (i - Suc k))"
      by simp
    moreover from this have "i - k = Suc (i - Suc k)" by arith
    ultimately show ?thesis by simp
  next
    case True
    show ?thesis
    proof (cases "p + bam_cigar_oplen c > e")
      case t: True
      with True 2(3) show ?thesis by auto
    next
      case f: False
      with True 2(3)
      have "trim_scan cs (Suc k) (p + bam_cigar_oplen c) e = Some (i, q)" by simp
      with 2(2) True f
      have "Suc k \<le> i \<and> i - Suc k < length cs \<and> consumes_ref (cs ! (i - Suc k)) \<and>
            e < q \<and> p + bam_cigar_oplen c \<le> q - bam_cigar_oplen (cs ! (i - Suc k))"
        by simp
      moreover from this have "i - k = Suc (i - Suc k)" by arith
      ultimately show ?thesis using oplen_nonneg[of c] by simp
    qed
  qed
qed

lemma trim_scan_beyond:
  "e < p \<Longrightarrow> \<exists>c\<in>set cs. consumes_ref c \<Longrightarrow> \<exists>i q. trim_scan cs k p e = Some (i, q)"
proof (induction cs arbitrary: k)
  case Nil
  then show ?case by simp
next
  case (Cons c cs)
  show ?case
  proof (cases "consumes_ref c")
    case True
    with Cons(2) oplen_nonneg[of c] show ?thesis by simp
  next
    case False
    with Cons show ?thesis by simp
  qed
qed

lemma cigar_100M:
  "bam_cigar_gen 100 BAM_CMATCH = 1600" "bam_cigar_oplen 1600 = 100" "consumes_ref 1600"
  "bam_cigar_op 1600 = 0" "bam_cigar_gen 70 0 = 1120"
  "bam_cigar_gen 30 BAM_CSOFT_CLIP = 484"
  by (simp_all add: cigar_defs tst_def)

lemma cigar_70M30S:
  "[bam_cigar_gen 70 BAM_CMATCH, bam_cigar_gen 30 BAM_CSOFT_CLIP] = [1120, 484]"
  by (simp add: cigar_defs)

lemma cigar_70EQ30X:
  "bam_cigar_gen 70 BAM_CEQUAL = 1127" "bam_cigar_gen 30 BAM_CDIFF = 488"
  "bam_cigar_oplen 1127 = 70" "bam_cigar_oplen 488 = 30"
  "consumes_ref 1127" "consumes_ref 488" "bam_cigar_op 488 = 8" "bam_cigar_op 1127 = 7"
  by (simp_all add: cigar_defs tst_def)

lemma cigar_50M:
  "bam_cigar_gen 50 BAM_CMATCH = 800" "bam_cigar_oplen 800 = 50" "consumes_ref 800"
  "bam_cigar_op 800 = 0"
  by (simp_all add: cigar_defs tst_def)

text \<open>
  C2.  The claim: when the reference-consuming operation that first crosses the
  cutoff starts exactly at the cutoff, the whole operation becomes a soft clip and
  the record stays mapped.  The source tests \<^verbatim>\<open>pos > end\<close> in the second
  arm of the branch, which always holds after the \<^verbatim>\<open>break\<close>, so the third
  arm ("CIGAR op started on the trim junction") is never taken: for the CIGAR
  70=30X at position 0 and the cutoff 70 the second operation is dropped, the
  unmapped flag is set, and the sanitizer then deletes the CIGAR.
\<close>

theorem C2_boundary_op_unmaps:
  "bam_trim (mk_read 0 0 0 [bam_cigar_gen 70 BAM_CEQUAL, bam_cigar_gen 30 BAM_CDIFF] []) 70
     = Inr (mk_read 0 0 BAM_FUNMAP [bam_cigar_gen 70 BAM_CEQUAL] []) \<and>
   bam_sanitize (\<lambda>t. 70)
       (mk_read 0 0 0 [bam_cigar_gen 70 BAM_CEQUAL, bam_cigar_gen 30 BAM_CDIFF] []) FIX_ALL
     = Inr ((mk_read 0 0 BAM_FUNMAP [] [])\<lparr>qual := 0\<rparr>)"
proof -
  let ?b = "mk_read 0 0 0 [1127, 488] []"
  have tr: "bam_trim ?b 70 = Inr (mk_read 0 0 BAM_FUNMAP [1127] [])"
    by (simp add: bam_trim_def trim_split_def mk_read_def cigar_70EQ30X flag_defs
        BAM_CHARD_CLIP_def)
  have ep: "bam_endpos ?b = 100"
    by (simp add: bam_endpos_def mk_read_def cigar_70EQ30X tst_def flag_defs)
  have sp: "sanitize_pos ?b FIX_ALL = ?b"
    by (simp add: sanitize_pos_def mk_read_def)
  have sc: "sanitize_cigar (\<lambda>t. 70) ?b FIX_ALL = Inr (mk_read 0 0 BAM_FUNMAP [1127] [])"
    using ep tr by (simp add: sanitize_cigar_def tst_FIX_ALL) (simp add: mk_read_def tst_def)
  have su: "sanitize_unmapped (mk_read 0 0 BAM_FUNMAP [1127] []) FIX_ALL
            = Inr ((mk_read 0 0 BAM_FUNMAP [] [])\<lparr>qual := 0\<rparr>)"
    by (simp add: sanitize_unmapped_def sanitize_aux_def tst_FIX_ALL fix_aux_def
        bam_aux_first_def)
       (simp add: mk_read_def tst_def flag_defs)
  show ?thesis using tr sp sc su by (simp add: bam_sanitize_def cigar_70EQ30X)
qed

text \<open>
  C4, first half as claimed: a 100M alignment at position 0 on a reference of
  length 70, sanitized with CIGAR fixing enabled, becomes 70M30S and nothing else
  of the record changes, so the unmapped flag stays clear.  Second half as amended:
  a record that starts beyond the cutoff and has a reference-consuming operation
  leaves a completed trim with the unmapped flag set and the proper-pair flag clear.
\<close>

theorem C4_trim_to_reference_end:
  "(tst flags FIX_CIGAR \<and> 0 \<le> tid b \<and> h (tid b) = 70 \<and> pos b = 0 \<and>
    cigar b = [bam_cigar_gen 100 BAM_CMATCH] \<and> \<not> tst (flag b) BAM_FUNMAP \<longrightarrow>
      bam_sanitize h b flags =
        Inr (b\<lparr>cigar := [bam_cigar_gen 70 BAM_CMATCH, bam_cigar_gen 30 BAM_CSOFT_CLIP]\<rparr>)) \<and>
   (e < pos r \<and> (\<exists>c\<in>set (cigar r). consumes_ref c) \<and> bam_trim r e = Inr r' \<longrightarrow>
      tst (flag r') BAM_FUNMAP \<and> \<not> tst (flag r') BAM_FPROPER_PAIR)"
proof -
  have first: "bam_sanitize h b flags =
        Inr (b\<lparr>cigar := [bam_cigar_gen 70 BAM_CMATCH, bam_cigar_gen 30 BAM_CSOFT_CLIP]\<rparr>)"
    if a: "tst flags FIX_CIGAR \<and> 0 \<le> tid b \<and> h (tid b) = 70 \<and> pos b = 0 \<and>
    cigar b = [bam_cigar_gen 100 BAM_CMATCH] \<and> \<not> tst (flag b) BAM_FUNMAP"
  proof -
  from a have cg: "cigar b = [1600]" by (simp add: cigar_100M)
  have sp: "sanitize_pos b flags = b" using a by (simp add: sanitize_pos_def)
  have ep: "bam_endpos b = 100" using a cg by (simp add: bam_endpos_def cigar_100M)
  have tr: "bam_trim b 70 = Inr (b\<lparr>cigar := [1120, 484]\<rparr>)"
    using a cg by (simp add: bam_trim_def trim_split_def cigar_100M)
  have sc: "sanitize_cigar h b flags = Inr (b\<lparr>cigar := [1120, 484]\<rparr>)"
    using a ep tr by (simp add: sanitize_cigar_def)
  show ?thesis
    unfolding cigar_70M30S using a sp sc by (simp add: bam_sanitize_def sanitize_unmapped_def)
  qed
  have second: "tst (flag r') BAM_FUNMAP \<and> \<not> tst (flag r') BAM_FPROPER_PAIR"
    if a: "e < pos r \<and> (\<exists>c\<in>set (cigar r). consumes_ref c) \<and> bam_trim r e = Inr r'"
  proof -
  from a obtain i q where s: "trim_scan (cigar r) 0 (pos r) e = Some (i, q)"
    using trim_scan_beyond[of e "pos r" "cigar r" 0] by blast
  from trim_scan_Some[OF s] a
  have br: "\<not> q - bam_cigar_oplen (cigar r ! i) < e" "e < q" by auto
  from a s br have "flag r' = (flag r OR BAM_FUNMAP) AND NOT BAM_FPROPER_PAIR"
    by (auto simp: bam_trim_def trim_split_def Let_def split: sum.splits)
  then show ?thesis
    by (simp add: unmap_flag_set proper_flag_clear)
  qed
  from first second show ?thesis by blast
qed

theorem C4_trim_to_reference_end_witness:
  "bam_sanitize (\<lambda>t. 70) (mk_read 0 0 1 [bam_cigar_gen 100 BAM_CMATCH] []) FIX_CIGAR =
     Inr (mk_read 0 0 1 [bam_cigar_gen 70 BAM_CMATCH, bam_cigar_gen 30 BAM_CSOFT_CLIP] []) \<and>
   bam_trim (mk_read 0 100 3 [bam_cigar_gen 50 BAM_CMATCH] []) 70 =
     Inr (mk_read 0 100 5 [] []) \<and>
   tst (flag (mk_read 0 100 5 [] [])) BAM_FUNMAP \<and>
   \<not> tst (flag (mk_read 0 100 5 [] [])) BAM_FPROPER_PAIR"
proof -
  let ?b = "mk_read 0 0 1 [bam_cigar_gen 100 BAM_CMATCH] []"
  let ?r = "mk_read 0 100 3 [bam_cigar_gen 50 BAM_CMATCH] []"
  have h1: "tst FIX_CIGAR FIX_CIGAR \<and> 0 \<le> tid ?b \<and> (\<lambda>t. 70) (tid ?b) = (70::int) \<and> pos ?b = 0 \<and>
    cigar ?b = [bam_cigar_gen 100 BAM_CMATCH] \<and> \<not> tst (flag ?b) BAM_FUNMAP"
    by (simp add: mk_read_def tst_def fix_defs flag_defs)
  have tr: "bam_trim ?r 70 = Inr (mk_read 0 100 5 [] [])"
    by (simp add: bam_trim_def trim_split_def mk_read_def cigar_50M flag_defs)
  have h2: "70 < pos ?r \<and> (\<exists>c\<in>set (cigar ?r). consumes_ref c) \<and>
            bam_trim ?r 70 = Inr (mk_read 0 100 5 [] [])"
    using tr by (simp add: mk_read_def cigar_50M)
  from C4_trim_to_reference_end[of FIX_CIGAR ?b "\<lambda>t. 70" 70 ?r "mk_read 0 100 5 [] []"] h1 h2
  have "bam_sanitize (\<lambda>t. 70) ?b FIX_CIGAR =
        Inr (?b\<lparr>cigar := [bam_cigar_gen 70 BAM_CMATCH, bam_cigar_gen 30 BAM_CSOFT_CLIP]\<rparr>)"
    and "tst (flag (mk_read 0 100 5 [] [])) BAM_FUNMAP \<and>
         \<not> tst (flag (mk_read 0 100 5 [] [])) BAM_FPROPER_PAIR"
    by blast+
  then show ?thesis using tr by (simp add: mk_read_def)
qed

text \<open>
  The claim as stated, for every record that starts beyond the cutoff, fails on a
  record with no reference-consuming operation: the scan runs out, the trim returns
  with nothing changed ("looks fine already"), and the flags are as before.
\<close>

theorem C4_trim_beyond_counterexample:
  "70 < pos (mk_read 0 100 3 [] []) \<and>
   bam_trim (mk_read 0 100 3 [] []) 70 = Inr (mk_read 0 100 3 [] []) \<and>
   \<not> tst (flag (mk_read 0 100 3 [] [])) BAM_FUNMAP \<and>
   tst (flag (mk_read 0 100 3 [] [])) BAM_FPROPER_PAIR"
  by (simp add: bam_trim_def mk_read_def tst_def flag_defs)

section \<open>Properties of the tag-removal pass\<close>

lemma t2s_cases: "aux_type2size t = 90 \<longleftrightarrow> t = 90" "aux_type2size t = 72 \<longleftrightarrow> t = 72" "aux_type2size t = 66 \<longleftrightarrow> t = 66"
  by (auto simp: aux_type2size_def)

lemma takeWhile_shorter: "\<exists>x\<in>set xs. \<not> P x \<Longrightarrow> length (takeWhile P xs) < length xs"
  by (induction xs) auto

lemma skip_aux_append:
  assumes "valid_tag e"
  shows "skip_aux (drop 2 e @ rest) = Some (length e - 2)"
proof -
  from assms obtain k0 k1 t r where e: "e = k0 # k1 # t # r"
    by (cases e; cases "tl e"; cases "tl (tl e)") (auto simp: valid_tag_def)
  from assms e have sk: "skip_aux (t # r) = Some (Suc (length r))"
    and z: "t = 90 \<or> t = 72 \<Longrightarrow> last (t # r) = 0"
    by (auto simp: valid_tag_def split: if_splits)
  consider (strc) "t = 90 \<or> t = 72" | (arrc) "t = 66" | (fixd) "t \<noteq> 90 \<and> t \<noteq> 72 \<and> t \<noteq> 66" by blast
  then have "skip_aux (t # r @ rest) = Some (Suc (length r))"
  proof cases
    case strc
    with z strc have l: "last (t # r) = 0" by simp
    with strc have rne: "r \<noteq> []" by auto
    with l have "last r = 0" by simp
    with rne have "\<exists>x\<in>set r. \<not> x \<noteq> 0" by (metis last_in_set)
    then have tw: "takeWhile (\<lambda>x. x \<noteq> 0) (r @ rest) = takeWhile (\<lambda>x. x \<noteq> 0) r"
      by (auto simp: takeWhile_append1)
    have lt: "length (takeWhile (\<lambda>x. x \<noteq> 0) r) < length r"
      using \<open>\<exists>x\<in>set r. \<not> x \<noteq> 0\<close> by (rule takeWhile_shorter)
    from sk strc lt have "Suc (Suc (length (takeWhile (\<lambda>x. x \<noteq> 0) r))) = Suc (length r)"
      by (auto simp: skip_aux_def t2s_cases Let_def)
    with strc lt tw show ?thesis by (auto simp: skip_aux_def t2s_cases Let_def)
  next
    case arrc
    with sk have l5: "5 \<le> length r" by (auto simp: skip_aux_def t2s_cases Let_def split: if_splits)
    then have a: "(r @ rest) ! 0 = r ! 0"
      "le_to_u32 (drop (Suc 0) r @ rest) = le_to_u32 (drop (Suc 0) r)"
      by (auto simp: le_to_u32_def nth_append)
    from arrc sk l5 show ?thesis
      unfolding skip_aux_def by (auto simp: t2s_cases Let_def a split: if_splits)
  next
    case fixd
    with fixd sk show ?thesis
      by (auto simp: skip_aux_def t2s_cases Let_def split: if_splits)
  qed
  with e show ?thesis by simp
qed

lemma memmove_take_drop:
  assumes "dst \<le> src" "src + n \<le> length buf"
  shows "memmove buf dst src n = take dst buf @ take n (drop src buf) @ drop (dst + n) buf"
proof (rule nth_equalityI)
  show "length (memmove buf dst src n)
        = length (take dst buf @ take n (drop src buf) @ drop (dst + n) buf)"
    using assms by (simp add: memmove_def)
next
  fix i assume "i < length (memmove buf dst src n)"
  then have i: "i < length buf" by (simp add: memmove_def)
  have l1: "length (take dst buf) = dst" using assms by simp
  have l2: "length (take n (drop src buf)) = n" using assms by simp
  have lhs: "memmove buf dst src n ! i
             = (if dst \<le> i \<and> i < dst + n then buf ! (i - dst + src) else buf ! i)"
    using i by (simp add: memmove_def)
  consider "i < dst" | "dst \<le> i" "i < dst + n" | "dst + n \<le> i" by linarith
  then show "memmove buf dst src n ! i
             = (take dst buf @ take n (drop src buf) @ drop (dst + n) buf) ! i"
  proof cases
    case 1
    then have "(take dst buf @ take n (drop src buf) @ drop (dst + n) buf) ! i
               = take dst buf ! i"
      by (simp only: nth_append l1 if_True)
    also have "\<dots> = buf ! i" using 1 by simp
    finally have "(take dst buf @ take n (drop src buf) @ drop (dst + n) buf) ! i = buf ! i" .
    with 1 lhs show ?thesis by simp
  next
    case 2
    then have a: "i - dst < n" "\<not> i < dst" by arith+
    have "(take dst buf @ take n (drop src buf) @ drop (dst + n) buf) ! i
          = (take n (drop src buf) @ drop (dst + n) buf) ! (i - dst)"
      using a by (simp only: nth_append l1 if_False)
    also have "\<dots> = take n (drop src buf) ! (i - dst)"
      using a by (simp only: nth_append l2 if_True)
    also have "\<dots> = drop src buf ! (i - dst)" using a by simp
    also have "\<dots> = buf ! (src + (i - dst))" using assms a by simp
    finally show ?thesis using 2 lhs by (simp add: add.commute)
  next
    case 3
    then have a: "\<not> i < dst" "\<not> i - dst < n" "\<not> (dst \<le> i \<and> i < dst + n)" by arith+
    have "(take dst buf @ take n (drop src buf) @ drop (dst + n) buf) ! i
          = (take n (drop src buf) @ drop (dst + n) buf) ! (i - dst)"
      using a by (simp only: nth_append l1 if_False)
    also have "\<dots> = drop (dst + n) buf ! (i - dst - n)"
      using a by (simp only: nth_append l2 if_False)
    also have "\<dots> = buf ! (dst + n + (i - dst - n))" using assms i 3 by simp
    also have "dst + n + (i - dst - n) = i" using 3 by arith
    finally show ?thesis using a lhs by simp
  qed
qed

lemma memmove_gap:
  "memmove (out @ gap @ e @ rest) (length out) (length out + length gap) (length e)
     = out @ e @ drop (length e) (gap @ e) @ rest"
  by (simp add: memmove_take_drop)

lemma valid_tag_length: "valid_tag e \<Longrightarrow> 3 \<le> length e"
  by (simp add: valid_tag_def)

lemma concat_valid_short:
  "\<forall>e\<in>set es. valid_tag e \<Longrightarrow> length (concat es) \<le> 2 \<longleftrightarrow> es = []"
  by (cases es) (auto dest: valid_tag_length)

lemma XTAG_eq: "unat a * 256 + unat b = XTAG c d \<longleftrightarrow> a = c \<and> b = d"
proof
  assume eq: "unat a * 256 + unat b = XTAG c d"
  have bd: "unat b < 256" "unat d < 256"
    using unsigned_less[of b, where 'a = nat] unsigned_less[of d, where 'a = nat] by simp_all
  from eq have e: "unat a * 256 + unat b = unat c * 256 + unat d" by (simp add: XTAG_def)
  from bd have "(unat a * 256 + unat b) div 256 = unat a" "(unat c * 256 + unat d) div 256 = unat c"
    "(unat a * 256 + unat b) mod 256 = unat b" "(unat c * 256 + unat d) mod 256 = unat d"
    by simp_all
  with e have "unat a = unat c" "unat b = unat d" by simp_all
  then show "a = c \<and> b = d" by (simp add: word_unat_eq_iff)
next
  assume "a = c \<and> b = d"
  then show "unat a * 256 + unat b = XTAG c d" by (simp add: XTAG_def)
qed

lemma removed_key_tag:
  "2 \<le> length e \<Longrightarrow> removed_key (unat (e ! 0) * 256 + unat (e ! 1)) = removed_tag e"
proof -
  assume "2 \<le> length e"
  then obtain a b r where e: "e = a # b # r" by (cases e; cases "tl e") auto
  show ?thesis unfolding e by (simp add: removed_key_def removed_tag_def XTAG_eq)
qed

lemma aux_next_valid:
  assumes "valid_tag e" "\<forall>x\<in>set es. valid_tag x"
  shows "bam_aux_next (out @ gap @ e @ concat es) (length out + length gap + 2)
         = (if es = [] then ENOENT else At (length out + length gap + length e + 2))"
proof -
  have d: "drop (length out + length gap + 2) (out @ gap @ e @ concat es) = drop 2 e @ concat es"
    using valid_tag_length[OF assms(1)] by simp
  show ?thesis
    unfolding bam_aux_next_def d skip_aux_append[OF assms(1)]
    using valid_tag_length[OF assms(1)] concat_valid_short[OF assms(2)] by auto
qed

lemma aux_filter_loop_last:
  assumes "bam_aux_next buf frm = ENOENT"
    and "removed_key (unat (buf ! (frm - 2)) * 256 + unat (buf ! (frm - 2 + 1))) = rk"
    and "length buf - (frm - 2) = len"
    and "(if frm - 2 \<noteq> to then memmove buf to (frm - 2) len else buf) = buf'"
  shows "aux_filter_loop buf frm to =
           (if rk then Inr (take to buf) else Inr (take (to + len) buf'))"
  using assms(2-4) by (subst aux_filter_loop.simps) (auto simp: Let_def assms(1))

lemma aux_filter_loop_more:
  assumes "bam_aux_next buf frm = At n"
    and "removed_key (unat (buf ! (frm - 2)) * 256 + unat (buf ! (frm - 2 + 1))) = rk"
    and "n - 2 - (frm - 2) = len"
    and "(if frm - 2 \<noteq> to then memmove buf to (frm - 2) len else buf) = buf'"
  shows "aux_filter_loop buf frm to =
           (if rk then aux_filter_loop buf n to else aux_filter_loop buf' n (to + len))"
  using assms(2-4) by (subst aux_filter_loop.simps) (auto simp: Let_def assms(1))

lemma aux_filter_loop_valid:
  "\<forall>e\<in>set es. valid_tag e \<Longrightarrow> es \<noteq> [] \<Longrightarrow>
     aux_filter_loop (out @ gap @ concat es) (length out + length gap + 2) (length out)
       = Inr (out @ concat (filter (\<lambda>e. \<not> removed_tag e) es))"
proof (induction es arbitrary: out gap)
  case Nil
  then show ?case by simp
next
  case (Cons e es)
  then have ve: "valid_tag e" and ves: "\<forall>x\<in>set es. valid_tag x" by auto
  note le = valid_tag_length[OF ve]
  define buf where "buf = out @ gap @ e @ concat es"
  define frm where "frm = length out + length gap + 2"
  have nx: "bam_aux_next buf frm
         = (if es = [] then ENOENT else At (length out + length gap + length e + 2))"
    unfolding buf_def frm_def by (rule aux_next_valid[OF ve ves])
  have f2: "frm - 2 = length out + length gap" by (simp add: frm_def)
  have lb: "length buf = length out + length gap + length e + length (concat es)"
    by (simp add: buf_def)
  have key: "removed_key (unat (buf ! (frm - 2)) * 256 + unat (buf ! (frm - 2 + 1)))
             = removed_tag e"
  proof -
    have "buf = (out @ gap) @ e @ concat es" by (simp add: buf_def)
    then have "buf ! (length (out @ gap) + 0) = (e @ concat es) ! 0"
      "buf ! (length (out @ gap) + 1) = (e @ concat es) ! 1"
      by (simp_all only: nth_append_length_plus)
    moreover have "(e @ concat es) ! 0 = e ! 0" "(e @ concat es) ! 1 = e ! 1"
      using le by (auto simp: nth_append)
    ultimately have "buf ! (frm - 2) = e ! 0" "buf ! (frm - 2 + 1) = e ! 1"
      by (simp_all add: f2)
    with le removed_key_tag[of e] show ?thesis by simp
  qed
  define buf' where
    "buf' = (if frm - 2 \<noteq> length out then memmove buf (length out) (frm - 2) (length e) else buf)"
  have "\<exists>gap'. buf' = (out @ e) @ gap' @ concat es \<and> length gap' = length gap"
  proof (cases "gap = []")
    case True
    then have "buf' = (out @ e) @ [] @ concat es" by (simp add: buf'_def f2 buf_def)
    with True show ?thesis by auto
  next
    case False
    then have "buf' = (out @ e) @ drop (length e) (gap @ e) @ concat es"
      using memmove_gap[of out gap e "concat es"] by (simp add: buf'_def f2 buf_def)
    moreover have "length (drop (length e) (gap @ e)) = length gap" by simp
    ultimately show ?thesis by blast
  qed
  then obtain gap' where b': "buf' = (out @ e) @ gap' @ concat es"
    and lg: "length gap' = length gap" by blast
  show ?case
  proof (cases "es = []")
    case True
    with nx have n1: "bam_aux_next buf frm = ENOENT" by simp
    have n2: "length buf - (frm - 2) = length e" using True by (simp add: lb f2)
    have "aux_filter_loop buf frm (length out) =
          (if removed_tag e then Inr (take (length out) buf)
           else Inr (take (length out + length e) buf'))"
      by (rule aux_filter_loop_last[OF n1 key n2 buf'_def[symmetric]])
    moreover have "take (length out) buf = out" by (simp add: buf_def)
    moreover have "take (length out + length e) buf' = out @ e"
      using b' by simp
    ultimately show ?thesis using True by (simp add: buf_def frm_def)
  next
    case False
    define n where "n = length out + length gap + length e + 2"
    from False nx have n1: "bam_aux_next buf frm = At n" by (simp add: n_def)
    have n2: "n - 2 - (frm - 2) = length e" by (simp add: n_def f2)
    have st: "aux_filter_loop buf frm (length out) =
          (if removed_tag e then aux_filter_loop buf n (length out)
           else aux_filter_loop buf' n (length out + length e))"
      by (rule aux_filter_loop_more[OF n1 key n2 buf'_def[symmetric]])
    have ih1: "aux_filter_loop buf n (length out)
       = Inr (out @ concat (filter (\<lambda>e. \<not> removed_tag e) es))"
    proof -
      have i: "length out + length (gap @ e) + 2 = n" by (simp add: n_def)
      from Cons.IH[OF ves False, of out "gap @ e"] show ?thesis
        by (simp only: i append_assoc buf_def)
    qed
    have ih2: "aux_filter_loop buf' n (length out + length e)
       = Inr ((out @ e) @ concat (filter (\<lambda>e. \<not> removed_tag e) es))"
    proof -
      have i: "length (out @ e) + length gap' + 2 = n" by (simp add: n_def lg)
      have l: "length (out @ e) = length out + length e" by simp
      from Cons.IH[OF ves False, of "out @ e" gap'] have
        "aux_filter_loop ((out @ e) @ gap' @ concat es) n (length (out @ e))
         = Inr ((out @ e) @ concat (filter (\<lambda>e. \<not> removed_tag e) es))"
        by (simp only: i)
      then show ?thesis by (simp only: l b')
    qed
    show ?thesis using st ih1 ih2 by (simp add: buf_def frm_def)
  qed
qed

lemma concat_valid_empty:
  "\<forall>e\<in>set es. valid_tag e \<Longrightarrow> concat es = [] \<longleftrightarrow> es = []"
  using concat_valid_short[of es] by (cases es) (auto dest: valid_tag_length)

lemma fix_aux_valid:
  assumes "\<forall>e\<in>set es. valid_tag e"
  shows "fix_aux (concat es) = Inr (concat (filter (\<lambda>e. \<not> removed_tag e) es))"
proof (cases "es = []")
  case True
  then show ?thesis by (simp add: fix_aux_def bam_aux_first_def)
next
  case False
  with concat_valid_short[OF assms] have "\<not> length (concat es) \<le> 2" by simp
  then have "fix_aux (concat es) = aux_filter_loop (concat es) 2 0"
    by (simp add: fix_aux_def bam_aux_first_def)
  with aux_filter_loop_valid[OF assms False, of "[]" "[]"] show ?thesis
    by (simp add: numeral_2_eq_2)
qed

lemma length_concat_filter:
  "length (concat (filter (\<lambda>e. \<not> P e) es)) + sum_list (map length (filter P es))
     = length (concat es)"
  by (induction es) auto

lemma sanitize_aux_valid:
  assumes "\<forall>e\<in>set es. valid_tag e" and "aux b = concat es"
  shows "sanitize_aux b = Inr (b\<lparr>aux := concat (filter (\<lambda>e. \<not> removed_tag e) es)\<rparr>)"
    and "l_data (b\<lparr>aux := concat (filter (\<lambda>e. \<not> removed_tag e) es)\<rparr>)
           + sum_list (map length (filter removed_tag es)) = l_data b"
  using assms fix_aux_valid[OF assms(1)] length_concat_filter[of removed_tag es]
  by (simp_all add: sanitize_aux_def l_data_def)

lemma tst_or_unmap: "tst (f OR BAM_FUNMAP) BAM_FUNMAP"
  by (simp add: tst_bit16 bit_simps) (simp add: flag_defs)

text \<open>
  C5.  For an unmapped record whose tag stream is well formed, sanitized with
  auxiliary-tag fixing enabled: the sanitizer succeeds, the stream it leaves is the
  concatenation, in the original order, of exactly the entries not keyed NM, MD, CG
  or SM, each byte for byte; and the tag-removal pass maps the record \<open>b2\<close> it
  is run on (which carries the tag stream of the input) to the result with the data
  length reduced by the total length of the removed entries.
\<close>

theorem C5_aux_tags_filtered:
  assumes wf: "\<forall>e\<in>set es. valid_tag e" and ab: "aux b = concat es"
    and un: "tst (flag b) BAM_FUNMAP" and fa: "tst flags FIX_AUX"
  shows "\<exists>b' b2. bam_sanitize h b flags = Inr b' \<and>
           aux b' = concat (filter (\<lambda>e. \<not> removed_tag e) es) \<and>
           aux b2 = aux b \<and> sanitize_aux b2 = Inr b' \<and>
           l_data b' + sum_list (map length (filter removed_tag es)) = l_data b2"
proof -
  define b0 where "b0 = sanitize_pos b flags"
  have u0: "tst (flag b0) BAM_FUNMAP" and a0: "aux b0 = aux b"
    using un by (auto simp: b0_def sanitize_pos_def tst_or_unmap Let_def)
  have sc: "sanitize_cigar h b0 flags = Inr b0"
    using u0 by (simp add: sanitize_cigar_def)
  define b1 where "b1 = (if tst flags FIX_CIGAR \<and> length (cigar b0) > 0
                   then b0\<lparr>cigar := []\<rparr> else b0)"
  define b2 where "b2 = (if tst flags FIX_MQUAL then b1\<lparr>qual := 0\<rparr> else b1)"
  have a2: "aux b2 = concat es" using a0 ab by (simp add: b2_def b1_def)
  have su: "sanitize_unmapped b0 flags = sanitize_aux b2"
    using u0 fa by (simp add: sanitize_unmapped_def b1_def b2_def Let_def)
  let ?b' = "b2\<lparr>aux := concat (filter (\<lambda>e. \<not> removed_tag e) es)\<rparr>"
  have "bam_sanitize h b flags = Inr ?b'"
    using sc su sanitize_aux_valid(1)[OF wf a2] by (simp add: bam_sanitize_def b0_def)
  moreover have "aux ?b' = concat (filter (\<lambda>e. \<not> removed_tag e) es)" by simp
  moreover have "aux b2 = aux b" using a2 ab by simp
  moreover note sanitize_aux_valid[OF wf a2]
  ultimately show ?thesis by blast
qed

lemma ex_tags_valid: "\<forall>e\<in>set ex_tags. valid_tag e"
  by (simp add: ex_tags_def valid_tag_def skip_aux_def aux_type2size_def le_to_u32_def)

theorem C5_aux_tags_filtered_witness:
  "(\<exists>b' b2. bam_sanitize (\<lambda>t. 0) (mk_read (-1) (-1) 4 [] (concat ex_tags)) FIX_ALL = Inr b' \<and>
      aux b' = concat (filter (\<lambda>e. \<not> removed_tag e) ex_tags) \<and>
      aux b2 = aux (mk_read (-1) (-1) 4 [] (concat ex_tags)) \<and> sanitize_aux b2 = Inr b' \<and>
      l_data b' + sum_list (map length (filter removed_tag ex_tags)) = l_data b2) \<and>
   concat (filter (\<lambda>e. \<not> removed_tag e) ex_tags) = [88, 88, 90, 65, 0, 89, 89, 105, 1, 2, 3, 4] \<and>
   sum_list (map length (filter removed_tag ex_tags)) = 18"
proof -
  have "aux (mk_read (-1) (-1) 4 [] (concat ex_tags)) = concat ex_tags"
    "tst (flag (mk_read (-1) (-1) 4 [] (concat ex_tags))) BAM_FUNMAP"
    by (simp_all add: mk_read_def tst_def flag_defs)
  note C5_aux_tags_filtered[OF ex_tags_valid this tst_FIX_ALL(5), of "\<lambda>t. 0"]
  moreover have
    "concat (filter (\<lambda>e. \<not> removed_tag e) ex_tags) = [88, 88, 90, 65, 0, 89, 89, 105, 1, 2, 3, 4]"
    "sum_list (map length (filter removed_tag ex_tags)) = 18"
    by (simp_all add: ex_tags_def removed_tag_def)
  ultimately show ?thesis by blast
qed

section \<open>Properties of the sanitizer\<close>

lemma sanitize_valid_noop:
  assumes "\<not> tst (flag b) BAM_FUNMAP" and "0 \<le> tid b" and "0 \<le> pos b"
    and "pos b < h (tid b)" and "bam_endpos b \<le> h (tid b)"
  shows "bam_sanitize h b FIX_ALL = Inr b"
  using assms
  by (simp add: bam_sanitize_def sanitize_pos_def sanitize_cigar_def sanitize_unmapped_def
      tst_FIX_ALL)

text \<open>
  C6.  A mapped record with a reference id, a position inside the reference and an
  alignment end that does not exceed the reference length is returned unchanged by
  the sanitizer with every fix category enabled.
\<close>

theorem C6_sanitize_valid_noop:
  assumes "\<not> tst (flag b) BAM_FUNMAP" and "0 \<le> tid b" and "0 \<le> pos b"
    and "pos b < h (tid b)" and "bam_endpos b \<le> h (tid b)"
  shows "bam_sanitize h b FIX_ALL = Inr b"
  using assms by (rule sanitize_valid_noop)

theorem C6_sanitize_valid_noop_witness:
  "bam_sanitize (\<lambda>t. 100) (mk_read 0 10 3 [bam_cigar_gen 50 BAM_CMATCH] [78, 77, 67, 5]) FIX_ALL
     = Inr (mk_read 0 10 3 [bam_cigar_gen 50 BAM_CMATCH] [78, 77, 67, 5])"
proof -
  let ?b = "mk_read 0 10 3 [bam_cigar_gen 50 BAM_CMATCH] [78, 77, 67, 5]"
  have "\<not> tst (flag ?b) BAM_FUNMAP" "0 \<le> tid ?b" "0 \<le> pos ?b" "pos ?b < (\<lambda>t. 100) (tid ?b)"
    "bam_endpos ?b \<le> (\<lambda>t. 100) (tid ?b)"
    by (simp_all add: mk_read_def tst_def flag_defs bam_endpos_def cigar_50M)
  then show ?thesis by (rule C6_sanitize_valid_noop)
qed

section \<open>Properties of the mate synchronizer\<close>

text \<open>
  \<open>same_core b b'\<close>: the two records differ at most in their tag streams, which
  is all that the tag operations of htslib change.
\<close>

definition same_core :: "bam1 \<Rightarrow> bam1 \<Rightarrow> bool" where
  "same_core b b' = (b' = b\<lparr>aux := aux b'\<rparr>)"

lemma same_core_refl [simp]: "same_core b b"
  by (simp add: same_core_def)

lemma same_core_fields:
  assumes "same_core b b'"
  shows "tid b' = tid b" "pos b' = pos b" "flag b' = flag b" "qual b' = qual b"
    "mtid b' = mtid b" "mpos b' = mpos b" "isize b' = isize b" "qname b' = qname b"
    "cigar b' = cigar b" "seq b' = seq b" "bqual b' = bqual b"
proof -
  from assms have e: "b' = b\<lparr>aux := aux b'\<rparr>" by (simp add: same_core_def)
  show "tid b' = tid b" by (subst e) simp
  show "pos b' = pos b" by (subst e) simp
  show "flag b' = flag b" by (subst e) simp
  show "qual b' = qual b" by (subst e) simp
  show "mtid b' = mtid b" by (subst e) simp
  show "mpos b' = mpos b" by (subst e) simp
  show "isize b' = isize b" by (subst e) simp
  show "qname b' = qname b" by (subst e) simp
  show "cigar b' = cigar b" by (subst e) simp
  show "seq b' = seq b" by (subst e) simp
  show "bqual b' = bqual b" by (subst e) simp
qed

lemma same_core_trans: "same_core a b \<Longrightarrow> same_core b c \<Longrightarrow> same_core a c"
  by (cases a; cases b; cases c) (simp add: same_core_def)

lemma same_core_upd: "same_core b (b\<lparr>aux := x\<rparr>)"
  by (simp add: same_core_def)

lemma bam_aux_del_core: "same_core b (bam_aux_del b s)"
  by (simp add: bam_aux_del_def same_core_upd split: option.splits)

lemma aux_del_tag_core: "same_core b (aux_del_tag b t0 t1)"
  by (simp add: aux_del_tag_def bam_aux_del_core split: aux_ptr.splits)

lemma bam_aux_append_core: "same_core b (fst (bam_aux_append b t0 t1 ty len dat))"
  by (simp add: bam_aux_append_def same_core_upd)

lemma replace_core:
  "same_core a b \<Longrightarrow>
   same_core a (fst (bam_aux_append (aux_del_tag b t0 t1) u0 u1 ty len dat))"
  by (blast intro: same_core_trans aux_del_tag_core bam_aux_append_core)

lemma sync_mq_mc_core: "same_core dest (sync_mq_mc src dest)"
  by (auto simp: sync_mq_mc_def Let_def intro!: replace_core)

lemma add_mate_score_core: "add_mate_score src dest = Inr d \<Longrightarrow> same_core dest d"
  using replace_core[OF same_core_refl, of dest 109 115 109 115 105 4
      "u32_bytes (calc_mate_score src)"]
  by (auto simp: add_mate_score_def split: prod.splits if_splits)

lemma bam_template_cigar_core:
  "bam_template_cigar b1 b2 = (c1, c2) \<Longrightarrow> same_core b1 c1 \<and> same_core b2 c2"
  by (auto simp: bam_template_cigar_def Let_def aux_del_tag_core split: if_splits
      intro!: replace_core)

text \<open>
  What \<open>sync_mate\<close> does to the core fields: \<open>flag_sync fs f\<close> is the
  flag word \<open>f\<close> after the mate-reverse and mate-unmapped bits have been taken
  from the flag word \<open>fs\<close> of the mate.
\<close>

definition flag_sync :: "u16 \<Rightarrow> u16 \<Rightarrow> u16" where
  "flag_sync fs f =
     (let f1 = (if tst fs BAM_FREVERSE then f OR BAM_FMREVERSE else f AND NOT BAM_FMREVERSE)
      in if tst fs BAM_FUNMAP then f1 OR BAM_FMUNMAP else f1)"

lemma flag_const_bits:
  "\<not> bit BAM_FMREVERSE 1" "\<not> bit BAM_FMREVERSE 2" "\<not> bit BAM_FMREVERSE 3" "\<not> bit BAM_FMREVERSE 4"
  "\<not> bit BAM_FMUNMAP 1" "\<not> bit BAM_FMUNMAP 2" "bit BAM_FMUNMAP 3" "\<not> bit BAM_FMUNMAP 4"
  "\<not> bit BAM_FPAIRED 1" "\<not> bit BAM_FPAIRED 2" "\<not> bit BAM_FPAIRED 3" "\<not> bit BAM_FPAIRED 4"
  "bit BAM_FPROPER_PAIR 1" "bit BAM_FUNMAP 2" "\<not> bit BAM_FUNMAP 1" "\<not> bit BAM_FUNMAP 3"
  "\<not> bit BAM_FMREVERSE (Suc 0)" "\<not> bit BAM_FMUNMAP (Suc 0)" "\<not> bit BAM_FPAIRED (Suc 0)"
  "bit BAM_FPROPER_PAIR (Suc 0)" "\<not> bit BAM_FUNMAP (Suc 0)"
  by (simp_all add: flag_defs)

lemma flag_sync_bits:
  "tst (flag_sync fs f) BAM_FREVERSE = tst f BAM_FREVERSE"
  "tst (flag_sync fs f) BAM_FUNMAP = tst f BAM_FUNMAP"
  "tst (flag_sync fs f) BAM_FPROPER_PAIR = tst f BAM_FPROPER_PAIR"
  "tst (flag_sync fs f) BAM_FMUNMAP = (tst f BAM_FMUNMAP \<or> tst fs BAM_FUNMAP)"
  by (simp_all add: flag_sync_def Let_def tst_bit16 bit_simps flag_const_bits)

lemma flag_sync_idem: "flag_sync (flag_sync x fs) f = flag_sync fs f"
  by (simp add: flag_sync_def[of "flag_sync x fs" f] flag_sync_def[of fs f] flag_sync_bits)

lemma sync_mate_inner_fields:
  "tid (sync_mate_inner src dest) = tid dest" "pos (sync_mate_inner src dest) = pos dest"
  "flag (sync_mate_inner src dest) = flag_sync (flag src) (flag dest)"
  "isize (sync_mate_inner src dest) = isize dest"
  "mtid (sync_mate_inner src dest) = tid src" "mpos (sync_mate_inner src dest) = pos src"
  by (simp_all add: sync_mate_inner_def flag_sync_def Let_def)

lemma sync_unmapped_fields:
  "flag (sync_unmapped_pos_inner src dest) = flag dest"
  "\<not> tst (flag dest) BAM_FUNMAP \<Longrightarrow> sync_unmapped_pos_inner src dest = dest"
  by (simp_all add: sync_unmapped_pos_inner_def)

lemma sync_mate_flags:
  assumes "sync_mate a b = (a', b')"
  shows "flag a' = flag_sync (flag b) (flag a)" "flag b' = flag_sync (flag a) (flag b)"
proof -
  define b1 where "b1 = sync_unmapped_pos_inner a b"
  define a1 where "a1 = sync_unmapped_pos_inner b1 a"
  define b2 where "b2 = sync_mate_inner a1 b1"
  define a2 where "a2 = sync_mate_inner b2 a1"
  from assms have e: "b' = sync_mq_mc a2 b2" "a' = sync_mq_mc b' a2"
    by (auto simp: sync_mate_def Let_def b1_def a1_def b2_def a2_def)
  have f1: "flag b1 = flag b" "flag a1 = flag a"
    by (simp_all add: b1_def a1_def sync_unmapped_fields)
  have f2: "flag b2 = flag_sync (flag a) (flag b)"
    by (simp add: b2_def sync_mate_inner_fields f1)
  have f3: "flag a2 = flag_sync (flag b) (flag a)"
    by (simp add: a2_def sync_mate_inner_fields f1 f2 flag_sync_idem)
  show "flag a' = flag_sync (flag b) (flag a)" "flag b' = flag_sync (flag a) (flag b)"
    using same_core_fields(3)[OF sync_mq_mc_core] e f2 f3 by simp_all
qed

lemma sync_mate_mapped:
  assumes "sync_mate a b = (a', b')" "\<not> tst (flag a) BAM_FUNMAP" "\<not> tst (flag b) BAM_FUNMAP"
  shows "tid a' = tid a" "pos a' = pos a" "tid b' = tid b" "pos b' = pos b"
proof -
  have u: "sync_unmapped_pos_inner a b = b" "sync_unmapped_pos_inner b a = a"
    using assms by (simp_all add: sync_unmapped_fields)
  from assms(1) have e: "b' = sync_mq_mc (sync_mate_inner (sync_mate_inner a b) a) (sync_mate_inner a b)"
    "a' = sync_mq_mc b' (sync_mate_inner (sync_mate_inner a b) a)"
    by (auto simp: sync_mate_def Let_def u)
  show "tid a' = tid a" "pos a' = pos a" "tid b' = tid b" "pos b' = pos b"
    using same_core_fields(1,2)[OF sync_mq_mc_core] e
    by (simp_all add: sync_mate_inner_fields)
qed


lemma tst_and_mono: "tst (f AND x) m \<Longrightarrow> tst f m"
proof (rule ccontr)
  assume a: "tst (f AND x) m" and "\<not> tst f m"
  then have "f AND m = 0" by (simp add: tst_def)
  moreover have "(f AND x) AND m = (f AND m) AND x" by (simp add: ac_simps)
  ultimately have "(f AND x) AND m = 0" by simp
  with a show False by (simp add: tst_def)
qed

lemma tst_or_paired:
  "tst (f OR BAM_FPAIRED) BAM_FPROPER_PAIR = tst f BAM_FPROPER_PAIR"
  "tst (f OR BAM_FPAIRED) BAM_FUNMAP = tst f BAM_FUNMAP"
  "tst (f OR BAM_FPAIRED) BAM_FMUNMAP = tst f BAM_FMUNMAP"
  "tst (f OR BAM_FPAIRED) BAM_FREVERSE = tst f BAM_FREVERSE"
  by (simp_all add: tst_bit16 bit_simps flag_const_bits)

lemma tst_or_split: "tst f (a OR b) = (tst f a \<or> tst f b)"
  by (auto simp: tst_def bit.conj_disj_distrib or_eq_0_iff)

lemma set_isize_fields:
  assumes "set_isize pre cur pe ce = (pre', cur')"
  shows "flag pre' = flag pre" "flag cur' = flag cur"
    "pre' = pre\<lparr>isize := isize pre'\<rparr>" "cur' = cur\<lparr>isize := isize cur'\<rparr>"
  using assms by (auto simp: set_isize_def Let_def split: if_splits)

lemma check_proper_fields:
  assumes "check_proper cfg pre cur = Inr (pre', cur')"
  shows "isize pre' = isize pre" "isize cur' = isize cur"
    "tst (flag pre') BAM_FPROPER_PAIR \<Longrightarrow> tst (flag pre) BAM_FPROPER_PAIR"
    "tst (flag cur') BAM_FPROPER_PAIR \<Longrightarrow> tst (flag cur) BAM_FPROPER_PAIR"
  using assms
  by (auto simp: check_proper_def split: if_splits sum.splits dest: tst_and_mono)

lemma mate_scores_core:
  assumes "mate_scores cfg pre cur = Inr (pre', cur')"
  shows "same_core pre pre'" "same_core cur cur'"
  using assms
  by (auto simp: mate_scores_def split: if_splits sum.splits dest: add_mate_score_core)

lemma orphan_flags_fields:
  assumes "orphan_flags cfg pre cur = (pre', cur')"
  shows "isize pre' = isize pre" "isize cur' = isize cur"
    "tst (flag pre') BAM_FPROPER_PAIR \<Longrightarrow> tst (flag pre) BAM_FPROPER_PAIR"
    "tst (flag cur') BAM_FPROPER_PAIR \<Longrightarrow> tst (flag cur) BAM_FPROPER_PAIR"
  using assms
  by (auto simp: orphan_flags_def Let_def split: if_splits dest: tst_and_mono)

lemma pair_fix_Inr:
  assumes "pair_fix cfg pre cur pe ce = Inr (pre', cur')"
  obtains pre1 cur1 pre2 cur2 pre3 cur3 pre4 cur4 pre5 cur5 where
    "sync_mate (pre\<lparr>flag := flag pre OR BAM_FPAIRED\<rparr>) (cur\<lparr>flag := flag cur OR BAM_FPAIRED\<rparr>)
       = (pre1, cur1)"
    "set_isize pre1 cur1 pe ce = (pre2, cur2)"
    "same_core pre2 pre3" "same_core cur2 cur3"
    "check_proper cfg pre3 cur3 = Inr (pre4, cur4)"
    "mate_scores cfg pre4 cur4 = Inr (pre5, cur5)"
    "orphan_flags cfg pre5 cur5 = (pre', cur')"
proof -
  obtain pre1 cur1 where 1: "sync_mate (pre\<lparr>flag := flag pre OR BAM_FPAIRED\<rparr>)
      (cur\<lparr>flag := flag cur OR BAM_FPAIRED\<rparr>) = (pre1, cur1)"
    by (cases "sync_mate (pre\<lparr>flag := flag pre OR BAM_FPAIRED\<rparr>)
      (cur\<lparr>flag := flag cur OR BAM_FPAIRED\<rparr>)")
  obtain pre2 cur2 where 2: "set_isize pre1 cur1 pe ce = (pre2, cur2)"
    by (cases "set_isize pre1 cur1 pe ce")
  obtain pre3 cur3 where 3:
    "(if add_ct cfg then bam_template_cigar pre2 cur2 else (pre2, cur2)) = (pre3, cur3)"
    by (cases "if add_ct cfg then bam_template_cigar pre2 cur2 else (pre2, cur2)")
  then have c3: "same_core pre2 pre3" "same_core cur2 cur3"
    by (auto split: if_splits dest: bam_template_cigar_core)
  from assms 1 2 3 obtain pre4 cur4 where 4: "check_proper cfg pre3 cur3 = Inr (pre4, cur4)"
    by (auto simp: pair_fix_def split: sum.splits)
  from assms 1 2 3 4 obtain pre5 cur5 where 5: "mate_scores cfg pre4 cur4 = Inr (pre5, cur5)"
    by (auto simp: pair_fix_def split: sum.splits)
  from assms 1 2 3 4 5 have 6: "orphan_flags cfg pre5 cur5 = (pre', cur')"
    by (auto simp: pair_fix_def)
  from 1 2 c3 4 5 6 show ?thesis by (rule that)
qed

lemma pair_fix_proper:
  assumes "pair_fix cfg pre cur pe ce = Inr (pre', cur')"
  shows "tst (flag pre') BAM_FPROPER_PAIR \<Longrightarrow> tst (flag pre) BAM_FPROPER_PAIR"
    and "tst (flag cur') BAM_FPROPER_PAIR \<Longrightarrow> tst (flag cur) BAM_FPROPER_PAIR"
proof -
  from assms obtain pre1 cur1 pre2 cur2 pre3 cur3 pre4 cur4 pre5 cur5 where
    1: "sync_mate (pre\<lparr>flag := flag pre OR BAM_FPAIRED\<rparr>) (cur\<lparr>flag := flag cur OR BAM_FPAIRED\<rparr>)
       = (pre1, cur1)" and
    2: "set_isize pre1 cur1 pe ce = (pre2, cur2)" and
    3: "same_core pre2 pre3" "same_core cur2 cur3" and
    4: "check_proper cfg pre3 cur3 = Inr (pre4, cur4)" and
    5: "mate_scores cfg pre4 cur4 = Inr (pre5, cur5)" and
    6: "orphan_flags cfg pre5 cur5 = (pre', cur')"
    by (rule pair_fix_Inr)
  have f1: "tst (flag pre1) BAM_FPROPER_PAIR = tst (flag pre) BAM_FPROPER_PAIR"
    "tst (flag cur1) BAM_FPROPER_PAIR = tst (flag cur) BAM_FPROPER_PAIR"
    using sync_mate_flags[OF 1] by (simp_all add: flag_sync_bits tst_or_paired)
  have f3: "flag pre3 = flag pre1" "flag cur3 = flag cur1"
    using set_isize_fields(1,2)[OF 2] same_core_fields(3)[OF 3(1)] same_core_fields(3)[OF 3(2)]
    by simp_all
  have f5: "flag pre5 = flag pre4" "flag cur5 = flag cur4"
    using mate_scores_core[OF 5] by (simp_all add: same_core_fields)
  show "tst (flag pre') BAM_FPROPER_PAIR \<Longrightarrow> tst (flag pre) BAM_FPROPER_PAIR"
    using orphan_flags_fields(3)[OF 6] check_proper_fields(3)[OF 4] f1 f3 f5 by simp
  show "tst (flag cur') BAM_FPROPER_PAIR \<Longrightarrow> tst (flag cur) BAM_FPROPER_PAIR"
    using orphan_flags_fields(4)[OF 6] check_proper_fields(4)[OF 4] f1 f3 f5 by simp
qed

text \<open>
  The five-prime reference coordinate of a record: its alignment start on the forward
  strand, its alignment end on the reverse strand.
\<close>

definition five_prime :: "bam1 \<Rightarrow> int" where
  "five_prime b = (if tst (flag b) BAM_FREVERSE then bam_endpos b else pos b)"

lemma pair_fix_isize:
  assumes "pair_fix cfg pre cur pe ce = Inr (pre', cur')"
  shows "isize pre' = isize (fst (set_isize
            (fst (sync_mate (pre\<lparr>flag := flag pre OR BAM_FPAIRED\<rparr>) (cur\<lparr>flag := flag cur OR BAM_FPAIRED\<rparr>)))
            (snd (sync_mate (pre\<lparr>flag := flag pre OR BAM_FPAIRED\<rparr>) (cur\<lparr>flag := flag cur OR BAM_FPAIRED\<rparr>)))
            pe ce))"
    and "isize cur' = isize (snd (set_isize
            (fst (sync_mate (pre\<lparr>flag := flag pre OR BAM_FPAIRED\<rparr>) (cur\<lparr>flag := flag cur OR BAM_FPAIRED\<rparr>)))
            (snd (sync_mate (pre\<lparr>flag := flag pre OR BAM_FPAIRED\<rparr>) (cur\<lparr>flag := flag cur OR BAM_FPAIRED\<rparr>)))
            pe ce))"
proof -
  from assms obtain pre1 cur1 pre2 cur2 pre3 cur3 pre4 cur4 pre5 cur5 where
    1: "sync_mate (pre\<lparr>flag := flag pre OR BAM_FPAIRED\<rparr>) (cur\<lparr>flag := flag cur OR BAM_FPAIRED\<rparr>)
       = (pre1, cur1)" and
    2: "set_isize pre1 cur1 pe ce = (pre2, cur2)" and
    3: "same_core pre2 pre3" "same_core cur2 cur3" and
    4: "check_proper cfg pre3 cur3 = Inr (pre4, cur4)" and
    5: "mate_scores cfg pre4 cur4 = Inr (pre5, cur5)" and
    6: "orphan_flags cfg pre5 cur5 = (pre', cur')"
    by (rule pair_fix_Inr)
  have "isize pre' = isize pre2" "isize cur' = isize cur2"
    using orphan_flags_fields(1,2)[OF 6] mate_scores_core[OF 5] check_proper_fields(1,2)[OF 4] 3
    by (simp_all add: same_core_fields)
  with 1 2 show "isize pre' = isize (fst (set_isize
            (fst (sync_mate (pre\<lparr>flag := flag pre OR BAM_FPAIRED\<rparr>) (cur\<lparr>flag := flag cur OR BAM_FPAIRED\<rparr>)))
            (snd (sync_mate (pre\<lparr>flag := flag pre OR BAM_FPAIRED\<rparr>) (cur\<lparr>flag := flag cur OR BAM_FPAIRED\<rparr>)))
            pe ce))"
    and "isize cur' = isize (snd (set_isize
            (fst (sync_mate (pre\<lparr>flag := flag pre OR BAM_FPAIRED\<rparr>) (cur\<lparr>flag := flag cur OR BAM_FPAIRED\<rparr>)))
            (snd (sync_mate (pre\<lparr>flag := flag pre OR BAM_FPAIRED\<rparr>) (cur\<lparr>flag := flag cur OR BAM_FPAIRED\<rparr>)))
            pe ce))"
    by simp_all
qed

lemma end_of_mapped: "\<not> tst (flag b) BAM_FUNMAP \<Longrightarrow> end_of b = bam_endpos b"
  by (simp add: end_of_def)

lemma set_isize_eq:
  "set_isize pre cur pe ce =
     (if tid pre = tid cur \<and> \<not> tst (flag cur) BAM_FUNMAP \<and> \<not> tst (flag cur) BAM_FMUNMAP
         \<and> \<not> tst (flag pre) BAM_FUNMAP \<and> \<not> tst (flag pre) BAM_FMUNMAP
      then (pre\<lparr>isize := (if tst (flag cur) BAM_FREVERSE then ce else pos cur)
                         - (if tst (flag pre) BAM_FREVERSE then pe else pos pre)\<rparr>,
            cur\<lparr>isize := (if tst (flag pre) BAM_FREVERSE then pe else pos pre)
                         - (if tst (flag cur) BAM_FREVERSE then ce else pos cur)\<rparr>)
      else (pre\<lparr>isize := 0\<rparr>, cur\<lparr>isize := 0\<rparr>))"
  by (simp add: set_isize_def Let_def tst_or_split)

text \<open>The insert sizes that a pair leaves \<open>pair_fix\<close> with.\<close>

lemma pair_fix_isize_cases:
  assumes pf: "pair_fix cfg pre cur (end_of pre) (end_of cur) = Inr (pre', cur')"
  shows "\<not> tst (flag pre) BAM_FUNMAP \<Longrightarrow> \<not> tst (flag cur) BAM_FUNMAP \<Longrightarrow> tid pre = tid cur \<Longrightarrow>
         \<not> tst (flag pre) BAM_FMUNMAP \<Longrightarrow> \<not> tst (flag cur) BAM_FMUNMAP \<Longrightarrow>
           isize pre' = five_prime cur - five_prime pre \<and>
           isize cur' = five_prime pre - five_prime cur"
    and "tid pre \<noteq> tid cur \<or> tst (flag pre) BAM_FUNMAP \<or> tst (flag cur) BAM_FUNMAP \<or>
         tst (flag pre) BAM_FMUNMAP \<or> tst (flag cur) BAM_FMUNMAP \<Longrightarrow>
           isize pre' = 0 \<and> isize cur' = 0"
proof -
  let ?p = "pre\<lparr>flag := flag pre OR BAM_FPAIRED\<rparr>"
  let ?c = "cur\<lparr>flag := flag cur OR BAM_FPAIRED\<rparr>"
  obtain pre1 cur1 where sm: "sync_mate ?p ?c = (pre1, cur1)" by (cases "sync_mate ?p ?c")
  note fl = sync_mate_flags[OF sm]
  have bits: "tst (flag pre1) BAM_FUNMAP = tst (flag pre) BAM_FUNMAP"
    "tst (flag cur1) BAM_FUNMAP = tst (flag cur) BAM_FUNMAP"
    "tst (flag pre1) BAM_FREVERSE = tst (flag pre) BAM_FREVERSE"
    "tst (flag cur1) BAM_FREVERSE = tst (flag cur) BAM_FREVERSE"
    "tst (flag pre1) BAM_FMUNMAP = (tst (flag pre) BAM_FMUNMAP \<or> tst (flag cur) BAM_FUNMAP)"
    "tst (flag cur1) BAM_FMUNMAP = (tst (flag cur) BAM_FMUNMAP \<or> tst (flag pre) BAM_FUNMAP)"
    by (simp_all add: fl flag_sync_bits tst_or_paired)
  note iz = pair_fix_isize[OF pf, unfolded sm fst_conv snd_conv]
  {
    assume m: "\<not> tst (flag pre) BAM_FUNMAP" "\<not> tst (flag cur) BAM_FUNMAP"
    have "\<not> tst (flag ?p) BAM_FUNMAP" "\<not> tst (flag ?c) BAM_FUNMAP"
      using m by (simp_all add: tst_or_paired)
    from sync_mate_mapped[OF sm this]
    have "tid pre1 = tid pre" "pos pre1 = pos pre" "tid cur1 = tid cur" "pos cur1 = pos cur"
      by simp_all
  } note mp = this
  {
    assume a: "\<not> tst (flag pre) BAM_FUNMAP" "\<not> tst (flag cur) BAM_FUNMAP" "tid pre = tid cur"
      "\<not> tst (flag pre) BAM_FMUNMAP" "\<not> tst (flag cur) BAM_FMUNMAP"
    show "isize pre' = five_prime cur - five_prime pre \<and>
          isize cur' = five_prime pre - five_prime cur"
      using iz a mp[OF a(1,2)] bits
      by (simp add: set_isize_eq five_prime_def end_of_mapped)
  }
  {
    assume a: "tid pre \<noteq> tid cur \<or> tst (flag pre) BAM_FUNMAP \<or> tst (flag cur) BAM_FUNMAP \<or>
         tst (flag pre) BAM_FMUNMAP \<or> tst (flag cur) BAM_FMUNMAP"
    show "isize pre' = 0 \<and> isize cur' = 0"
    proof (cases "tst (flag pre) BAM_FUNMAP \<or> tst (flag cur) BAM_FUNMAP \<or>
         tst (flag pre) BAM_FMUNMAP \<or> tst (flag cur) BAM_FMUNMAP")
      case True
      then show ?thesis using iz bits by (auto simp: set_isize_eq)
    next
      case False
      with a have "tid pre \<noteq> tid cur" by blast
      moreover from False have "tid pre1 = tid pre" "tid cur1 = tid cur" using mp by blast+
      ultimately show ?thesis using iz by (simp add: set_isize_eq)
    qed
  }
qed

lemma pair_fix_total:
  assumes "\<not> proper_pair_check cfg" "\<not> do_mate_scoring cfg"
  shows "\<exists>p c. pair_fix cfg pre cur pe ce = Inr (p, c)"
  using assms
  by (simp add: pair_fix_def check_proper_def mate_scores_def split: prod.splits)


text \<open>
  C3, as amended.  For a pair that leaves the pair fix-up of the orchestrator: when
  both records are mapped, on one reference, and neither carries the mate-unmapped
  flag on input, each insert size is the five-prime coordinate of the other record
  minus its own; when the references differ or either record is unmapped, both insert
  sizes are 0; and in every case the two insert sizes are negatives of each other.
  The end coordinates are those the orchestrator stores before it synchronizes.
\<close>

theorem C3_insert_size:
  assumes "pair_fix cfg pre cur (end_of pre) (end_of cur) = Inr (pre', cur')"
  shows "(\<not> tst (flag pre) BAM_FUNMAP \<and> \<not> tst (flag cur) BAM_FUNMAP \<and> tid pre = tid cur \<and>
          \<not> tst (flag pre) BAM_FMUNMAP \<and> \<not> tst (flag cur) BAM_FMUNMAP \<longrightarrow>
            isize pre' = five_prime cur - five_prime pre \<and>
            isize cur' = five_prime pre - five_prime cur) \<and>
         (tid pre \<noteq> tid cur \<or> tst (flag pre) BAM_FUNMAP \<or> tst (flag cur) BAM_FUNMAP \<longrightarrow>
            isize pre' = 0 \<and> isize cur' = 0) \<and>
         isize pre' = - isize cur'"
proof -
  note c = pair_fix_isize_cases[OF assms]
  have "isize pre' = - isize cur'"
  proof (cases "tid pre \<noteq> tid cur \<or> tst (flag pre) BAM_FUNMAP \<or> tst (flag cur) BAM_FUNMAP \<or>
         tst (flag pre) BAM_FMUNMAP \<or> tst (flag cur) BAM_FMUNMAP")
    case True
    from c(2)[OF this] show ?thesis by simp
  next
    case False
    with c(1) show ?thesis by simp
  qed
  with c show ?thesis by blast
qed

theorem C3_insert_size_witness:
  "isizes (pair_fix cfg_plain (mk_read 0 100 0 [bam_cigar_gen 50 BAM_CMATCH] [])
             (mk_read 0 200 BAM_FREVERSE [bam_cigar_gen 50 BAM_CMATCH] [])
             (end_of (mk_read 0 100 0 [bam_cigar_gen 50 BAM_CMATCH] []))
             (end_of (mk_read 0 200 BAM_FREVERSE [bam_cigar_gen 50 BAM_CMATCH] [])))
     = Some (150, -150)"
proof -
  let ?pre = "mk_read 0 100 0 [bam_cigar_gen 50 BAM_CMATCH] []"
  let ?cur = "mk_read 0 200 BAM_FREVERSE [bam_cigar_gen 50 BAM_CMATCH] []"
  have "\<exists>p c. pair_fix cfg_plain ?pre ?cur (end_of ?pre) (end_of ?cur) = Inr (p, c)"
    by (rule pair_fix_total) (simp_all add: cfg_plain_def)
  then obtain p c where pf: "pair_fix cfg_plain ?pre ?cur (end_of ?pre) (end_of ?cur) = Inr (p, c)"
    by blast
  have h: "\<not> tst (flag ?pre) BAM_FUNMAP \<and> \<not> tst (flag ?cur) BAM_FUNMAP \<and> tid ?pre = tid ?cur \<and>
          \<not> tst (flag ?pre) BAM_FMUNMAP \<and> \<not> tst (flag ?cur) BAM_FMUNMAP"
    by (simp add: mk_read_def tst_def flag_defs)
  have f: "five_prime ?pre = 100" "five_prime ?cur = 250"
    by (simp_all add: five_prime_def bam_endpos_def mk_read_def tst_def flag_defs cigar_50M)
  from C3_insert_size[OF pf] h f have "isize p = 150" "isize c = -150" by simp_all
  with pf show ?thesis by (simp add: isizes_def)
qed

text \<open>
  The claim as stated, for every pair of mapped records on one reference, fails
  when a record comes in with the mate-unmapped flag set: \<open>sync_mate_inner\<close>
  sets that flag and never clears it, and the test before the insert sizes are
  computed looks at it, so both insert sizes are 0 although the five-prime
  coordinates are 150 apart.
\<close>

theorem C3_stale_mate_unmapped_counterexample:
  "\<not> tst (flag (mk_read 0 100 BAM_FMUNMAP [bam_cigar_gen 50 BAM_CMATCH] [])) BAM_FUNMAP \<and>
   \<not> tst (flag (mk_read 0 200 BAM_FREVERSE [bam_cigar_gen 50 BAM_CMATCH] [])) BAM_FUNMAP \<and>
   tid (mk_read 0 100 BAM_FMUNMAP [bam_cigar_gen 50 BAM_CMATCH] [])
     = tid (mk_read 0 200 BAM_FREVERSE [bam_cigar_gen 50 BAM_CMATCH] []) \<and>
   five_prime (mk_read 0 200 BAM_FREVERSE [bam_cigar_gen 50 BAM_CMATCH] [])
     - five_prime (mk_read 0 100 BAM_FMUNMAP [bam_cigar_gen 50 BAM_CMATCH] []) = 150 \<and>
   isizes (pair_fix cfg_plain (mk_read 0 100 BAM_FMUNMAP [bam_cigar_gen 50 BAM_CMATCH] [])
             (mk_read 0 200 BAM_FREVERSE [bam_cigar_gen 50 BAM_CMATCH] [])
             (end_of (mk_read 0 100 BAM_FMUNMAP [bam_cigar_gen 50 BAM_CMATCH] []))
             (end_of (mk_read 0 200 BAM_FREVERSE [bam_cigar_gen 50 BAM_CMATCH] [])))
     = Some (0, 0)"
proof -
  let ?pre = "mk_read 0 100 BAM_FMUNMAP [bam_cigar_gen 50 BAM_CMATCH] []"
  let ?cur = "mk_read 0 200 BAM_FREVERSE [bam_cigar_gen 50 BAM_CMATCH] []"
  have "\<exists>p c. pair_fix cfg_plain ?pre ?cur (end_of ?pre) (end_of ?cur) = Inr (p, c)"
    by (rule pair_fix_total) (simp_all add: cfg_plain_def)
  then obtain p c where pf: "pair_fix cfg_plain ?pre ?cur (end_of ?pre) (end_of ?cur) = Inr (p, c)"
    by blast
  have h: "\<not> tst (flag ?pre) BAM_FUNMAP" "\<not> tst (flag ?cur) BAM_FUNMAP" "tid ?pre = tid ?cur"
    "tst (flag ?pre) BAM_FMUNMAP"
    by (simp_all add: mk_read_def tst_def flag_defs)
  have f: "five_prime ?pre = 100" "five_prime ?cur = 250"
    by (simp_all add: five_prime_def bam_endpos_def mk_read_def tst_def flag_defs cigar_50M)
  from pair_fix_isize_cases(2)[OF pf] h(4) have "isize p = 0" "isize c = 0" by simp_all
  with pf h f show ?thesis by (simp add: isizes_def)
qed

section \<open>Properties of the orchestrator\<close>

lemma pair_flags_cleared:
  "\<not> tst (f AND NOT PAIR_FLAGS) BAM_FPAIRED" "\<not> tst (f AND NOT PAIR_FLAGS) BAM_FMREVERSE"
  "\<not> tst (f AND NOT PAIR_FLAGS) BAM_FPROPER_PAIR"
  by (simp_all add: tst_bit16 bit_simps PAIR_FLAGS_def) (simp_all add: flag_defs)

lemma fix_primaries_skip:
  "\<forall>i\<in>set ns. tst (flag (b ! i)) (BAM_FSECONDARY OR BAM_FSUPPLEMENTARY) \<Longrightarrow>
   fix_primaries cfg (ns @ ms) b pre pe cur = fix_primaries cfg ms b pre pe cur"
  by (induction ns) simp_all

lemma upt_split: "p < n \<Longrightarrow> [0..<n] = [0..<p] @ p # [Suc p..<n]"
  using upt_add_eq_append[of 0 p "n - p"] by (simp add: upt_conv_Cons)

lemma fix_template_single:
  assumes "p < n" and "\<not> tst (flag (b ! p)) (BAM_FSECONDARY OR BAM_FSUPPLEMENTARY)"
    and "\<forall>i<n. i \<noteq> p \<longrightarrow> tst (flag (b ! i)) (BAM_FSECONDARY OR BAM_FSUPPLEMENTARY)"
  shows "fix_template cfg b n =
           Inr (b[p := (b ! p)\<lparr>mtid := -1, mpos := -1, isize := 0,
                                flag := flag (b ! p) AND NOT PAIR_FLAGS\<rparr>])"
proof -
  have a: "\<forall>i\<in>set [0..<p]. tst (flag (b ! i)) (BAM_FSECONDARY OR BAM_FSUPPLEMENTARY)"
    using assms by auto
  have c: "\<forall>i\<in>set [Suc p..<n]. tst (flag (b ! i)) (BAM_FSECONDARY OR BAM_FSUPPLEMENTARY)"
    using assms by auto
  have "fix_primaries cfg [0..<n] b None 0 None
        = fix_primaries cfg (p # [Suc p..<n]) b None 0 None"
    unfolding upt_split[OF assms(1)] by (rule fix_primaries_skip[OF a])
  also have "\<dots> = fix_primaries cfg ([Suc p..<n] @ []) b (Some p) (end_of (b ! p)) None"
    using assms(2) by simp
  also have "\<dots> = Inr (b, Some p, None)"
    unfolding fix_primaries_skip[OF c] by simp
  finally show ?thesis by (simp add: fix_template_def unpaired_fix_def)
qed

text \<open>
  C7.  A template with exactly one primary record, at index \<open>p\<close>: the
  orchestrator succeeds and changes that record only, setting its mate reference and
  mate position to -1 and its insert size to 0 and clearing its paired, mate-reverse
  and proper-pair flags; the record is then among those written, unless the removal
  policy drops it for being unmapped.
\<close>

theorem C7_unpaired_primary:
  assumes "p < n" and "n \<le> length b"
    and "\<not> tst (flag (b ! p)) (BAM_FSECONDARY OR BAM_FSUPPLEMENTARY)"
    and "\<forall>i<n. i \<noteq> p \<longrightarrow> tst (flag (b ! i)) (BAM_FSECONDARY OR BAM_FSUPPLEMENTARY)"
  shows "\<exists>b'. fix_template cfg b n = Inr b' \<and>
           b' = b[p := (b ! p)\<lparr>mtid := -1, mpos := -1, isize := 0,
                                flag := flag (b ! p) AND NOT PAIR_FLAGS\<rparr>] \<and>
           mtid (b' ! p) = -1 \<and> mpos (b' ! p) = -1 \<and> isize (b' ! p) = 0 \<and>
           \<not> tst (flag (b' ! p)) BAM_FPAIRED \<and> \<not> tst (flag (b' ! p)) BAM_FMREVERSE \<and>
           \<not> tst (flag (b' ! p)) BAM_FPROPER_PAIR \<and>
           (\<not> (remove_reads cfg \<and> tst (flag (b ! p)) BAM_FUNMAP) \<longrightarrow>
              b' ! p \<in> set (written cfg b' n))"
proof -
  let ?r = "(b ! p)\<lparr>mtid := -1, mpos := -1, isize := 0, flag := flag (b ! p) AND NOT PAIR_FLAGS\<rparr>"
  let ?b' = "b[p := ?r]"
  have ft: "fix_template cfg b n = Inr ?b'"
    by (rule fix_template_single[OF assms(1,3,4)])
  have np: "?b' ! p = ?r" using assms(1,2) by simp
  have w: "?b' ! p \<in> set (written cfg ?b' n)"
    if nr: "\<not> (remove_reads cfg \<and> tst (flag (b ! p)) BAM_FUNMAP)"
  proof -
    have "p < length (take n ?b')" using assms(1,2) by simp
    then have "take n ?b' ! p \<in> set (take n ?b')" by (rule nth_mem)
    moreover have "take n ?b' ! p = ?b' ! p" using assms(1) by simp
    ultimately have "?b' ! p \<in> set (take n ?b')" by simp
    moreover have "\<not> (remove_reads cfg \<and> tst (flag (?b' ! p)) (BAM_FSECONDARY OR BAM_FUNMAP))"
    proof
      assume a: "remove_reads cfg \<and> tst (flag (?b' ! p)) (BAM_FSECONDARY OR BAM_FUNMAP)"
      then have "tst (flag (b ! p)) (BAM_FSECONDARY OR BAM_FUNMAP)"
        unfolding np by (auto dest: tst_and_mono)
      with assms(3) have "tst (flag (b ! p)) BAM_FUNMAP" by (auto simp: tst_or_split)
      with a nr show False by simp
    qed
    ultimately show ?thesis by (simp add: written_def)
  qed
  from ft np w show ?thesis by (simp add: pair_flags_cleared)
qed

theorem C7_unpaired_primary_witness:
  "\<exists>b'. fix_template cfg_plain
          [mk_read 0 5 BAM_FSECONDARY [bam_cigar_gen 50 BAM_CMATCH] [],
           (mk_read 0 10 35 [bam_cigar_gen 50 BAM_CMATCH] [])\<lparr>mtid := 0, mpos := 300, isize := 340\<rparr>] 2
         = Inr b' \<and>
        mtid (b' ! 1) = -1 \<and> mpos (b' ! 1) = -1 \<and> isize (b' ! 1) = 0 \<and>
        \<not> tst (flag (b' ! 1)) BAM_FPAIRED \<and> \<not> tst (flag (b' ! 1)) BAM_FMREVERSE \<and>
        \<not> tst (flag (b' ! 1)) BAM_FPROPER_PAIR \<and> b' ! 1 \<in> set (written cfg_plain b' 2)"
proof -
  let ?b = "[mk_read 0 5 BAM_FSECONDARY [bam_cigar_gen 50 BAM_CMATCH] [],
           (mk_read 0 10 35 [bam_cigar_gen 50 BAM_CMATCH] [])\<lparr>mtid := 0, mpos := 300, isize := 340\<rparr>]"
  have h: "(1::nat) < 2" "2 \<le> length ?b"
    "\<not> tst (flag (?b ! 1)) (BAM_FSECONDARY OR BAM_FSUPPLEMENTARY)"
    "\<forall>i<2. i \<noteq> 1 \<longrightarrow> tst (flag (?b ! i)) (BAM_FSECONDARY OR BAM_FSUPPLEMENTARY)"
    by (simp_all add: mk_read_def tst_def flag_defs less_2_cases_iff)
  have nr: "\<not> (remove_reads cfg_plain \<and> tst (flag (?b ! 1)) BAM_FUNMAP)"
    by (simp add: cfg_plain_def)
  from C7_unpaired_primary[OF h, of cfg_plain] nr show ?thesis by blast
qed

lemma fix_template_secondary:
  "fix_template cfg [mk_read 0 5 BAM_FSECONDARY [bam_cigar_gen 50 BAM_CMATCH] [], x] (Suc 0)
     = Inl Null_Deref"
  by (simp add: fix_template_def unpaired_fix_def mk_read_def tst_def flag_defs)

text \<open>
  C8.  The claim: the cleanup for an unpaired primary reaches the previous-primary
  pointer only when a primary record exists.  The source tests \<^verbatim>\<open>!cur\<close>
  alone: for a template whose only record is a secondary alignment both pointers are
  NULL and the cleanup writes through \<^verbatim>\<open>pre\<close>.
\<close>

theorem C8_all_secondary_null_deref:
  "fix_template cfg [mk_read 0 5 BAM_FSECONDARY [bam_cigar_gen 50 BAM_CMATCH] []] 1
     = Inl Null_Deref \<and>
   bam_mating_core cfg (\<lambda>t. 100) FIX_ALL
     \<lparr>pending = [mk_read 0 5 BAM_FSECONDARY [bam_cigar_gen 50 BAM_CMATCH] []],
      truncated = False\<rparr> = Inl Null_Deref"
proof -
  let ?r = "mk_read 0 5 BAM_FSECONDARY [bam_cigar_gen 50 BAM_CMATCH] []"
  have s: "bam_sanitize (\<lambda>t. 100) ?r FIX_ALL = Inr ?r"
    by (rule sanitize_valid_noop)
       (simp_all add: mk_read_def tst_def flag_defs bam_endpos_def cigar_50M)
  have p: "prime_template (\<lambda>t. 100) FIX_ALL bs_init \<lparr>pending = [?r], truncated = False\<rparr>
           = Inr (Primed [?r] 1 [])"
    using s by (simp add: prime_template_def bs_init_def grow_b_array_def)
  have g: "read_group (\<lambda>t. 100) FIX_ALL (qname ?r) False [] [?r] 1 1
           = Inr (\<lparr>bs_b = [?r, bam_zero], bs_n = 1, bs_ba = 2, bs_next = -1, bs_eof = True\<rparr>,
                  \<lparr>pending = [], truncated = False\<rparr>)"
    using s by (simp add: grow_b_array_def)
  have n: "next_template (\<lambda>t. 100) FIX_ALL bs_init \<lparr>pending = [?r], truncated = False\<rparr>
           = Inr (1, \<lparr>bs_b = [?r, bam_zero], bs_n = 1, bs_ba = 2, bs_next = -1, bs_eof = True\<rparr>,
                  \<lparr>pending = [], truncated = False\<rparr>)"
    using p g by (simp add: next_template_def bs_init_def)
  have "fix_template cfg [?r] 1 = Inl Null_Deref"
    by (simp add: fix_template_def unpaired_fix_def mk_read_def tst_def flag_defs)
  moreover have "bam_mating_core cfg (\<lambda>t. 100) FIX_ALL \<lparr>pending = [?r], truncated = False\<rparr>
                 = Inl Null_Deref"
    unfolding bam_mating_core_def
    by (subst core_loop.simps) (simp add: n fix_template_secondary)
  ultimately show ?thesis by simp
qed

section \<open>Properties of the batch reader\<close>

text \<open>
  C1.  The claim: every record of a fetched group, and the record read ahead, has
  passed through the sanitizer.  The loop of the source sanitizes
  \<^verbatim>\<open>bs->b[0]\<close> after each read, not the record just read: of two records
  with one name the second comes back as it was read, although the sanitizer would
  change it (no reference, position 7: position -1, unmapped, quality 0).
\<close>

theorem C1_second_record_not_sanitized:
  "next_template (\<lambda>t. 100) FIX_ALL bs_init
     \<lparr>pending = [mk_read 0 10 0 [bam_cigar_gen 50 BAM_CMATCH] [], mk_read (-1) 7 0 [] []],
      truncated = False\<rparr>
   = Inr (2, \<lparr>bs_b = [mk_read 0 10 0 [bam_cigar_gen 50 BAM_CMATCH] [], mk_read (-1) 7 0 [] [],
                      bam_zero],
              bs_n = 2, bs_ba = 3, bs_next = -1, bs_eof = True\<rparr>,
          \<lparr>pending = [], truncated = False\<rparr>) \<and>
   bam_sanitize (\<lambda>t. 100) (mk_read (-1) 7 0 [] []) FIX_ALL
     = Inr ((mk_read (-1) (-1) BAM_FUNMAP [] [])\<lparr>qual := 0\<rparr>) \<and>
   mk_read (-1) 7 0 [] [] \<noteq> (mk_read (-1) (-1) BAM_FUNMAP [] [])\<lparr>qual := 0\<rparr>"
proof -
  let ?r1 = "mk_read 0 10 0 [bam_cigar_gen 50 BAM_CMATCH] []"
  let ?r2 = "mk_read (-1) 7 0 [] []"
  have s: "bam_sanitize (\<lambda>t. 100) ?r1 FIX_ALL = Inr ?r1"
    by (rule sanitize_valid_noop)
       (simp_all add: mk_read_def tst_def flag_defs bam_endpos_def cigar_50M)
  have p: "prime_template (\<lambda>t. 100) FIX_ALL bs_init \<lparr>pending = [?r1, ?r2], truncated = False\<rparr>
           = Inr (Primed [?r1] 1 [?r2])"
    using s by (simp add: prime_template_def bs_init_def grow_b_array_def)
  have nm: "qname ?r1 = qname ?r2" by (simp add: mk_read_def)
  have g: "read_group (\<lambda>t. 100) FIX_ALL (qname ?r1) False [?r2] [?r1] 1 1
           = Inr (\<lparr>bs_b = [?r1, ?r2, bam_zero], bs_n = 2, bs_ba = 3, bs_next = -1, bs_eof = True\<rparr>,
                  \<lparr>pending = [], truncated = False\<rparr>)"
    using s nm by (simp add: grow_b_array_def Let_def)
  have n: "next_template (\<lambda>t. 100) FIX_ALL bs_init \<lparr>pending = [?r1, ?r2], truncated = False\<rparr>
           = Inr (2, \<lparr>bs_b = [?r1, ?r2, bam_zero], bs_n = 2, bs_ba = 3, bs_next = -1, bs_eof = True\<rparr>,
                  \<lparr>pending = [], truncated = False\<rparr>)"
    using p g by (simp add: next_template_def bs_init_def)
  have s2: "bam_sanitize (\<lambda>t. 100) ?r2 FIX_ALL = Inr ((mk_read (-1) (-1) BAM_FUNMAP [] [])\<lparr>qual := 0\<rparr>)"
    by (simp add: bam_sanitize_def sanitize_pos_def sanitize_cigar_def sanitize_unmapped_def
        sanitize_aux_def fix_aux_def bam_aux_first_def tst_FIX_ALL Let_def)
       (simp add: mk_read_def tst_def flag_defs)
  have "?r2 \<noteq> (mk_read (-1) (-1) BAM_FUNMAP [] [])\<lparr>qual := 0\<rparr>"
    by (simp add: mk_read_def)
  with n s2 show ?thesis by simp
qed


section \<open>Properties of the whole run\<close>

text \<open>
  \<open>no_new_proper r r'\<close>: the record \<open>r'\<close> has the proper-pair flag only
  if \<open>r\<close> has it.
\<close>

definition no_new_proper :: "bam1 \<Rightarrow> bam1 \<Rightarrow> bool" where
  "no_new_proper r r' = (tst (flag r') BAM_FPROPER_PAIR \<longrightarrow> tst (flag r) BAM_FPROPER_PAIR)"

lemma nnp_refl [simp]: "no_new_proper r r"
  by (simp add: no_new_proper_def)

lemma nnp_trans: "no_new_proper a b \<Longrightarrow> no_new_proper b c \<Longrightarrow> no_new_proper a c"
  by (simp add: no_new_proper_def)

lemma nnp_list_refl [simp]: "list_all2 no_new_proper xs xs"
  by (simp add: list_all2_refl)

lemma nnp_list_trans:
  "list_all2 no_new_proper xs ys \<Longrightarrow> list_all2 no_new_proper ys zs \<Longrightarrow>
   list_all2 no_new_proper xs zs"
  by (rule list_all2_trans[of no_new_proper no_new_proper no_new_proper])
     (auto intro: nnp_trans)

lemma nnp_list_update:
  "i < length xs \<Longrightarrow> no_new_proper (xs ! i) y \<Longrightarrow> list_all2 no_new_proper xs (xs[i := y])"
  by (simp add: list_all2_conv_all_nth nth_list_update)

lemma nnp_list_update_any:
  "(i < length xs \<Longrightarrow> no_new_proper (xs ! i) y) \<Longrightarrow> list_all2 no_new_proper xs (xs[i := y])"
  by (cases "i < length xs") (simp_all add: nnp_list_update list_update_beyond)

lemma tst_or_unmap_proper:
  "tst (f OR BAM_FUNMAP) BAM_FPROPER_PAIR = tst f BAM_FPROPER_PAIR"
  by (simp add: tst_bit16 bit_simps flag_const_bits)

lemma bam_trim_proper: "bam_trim b e = Inr b' \<Longrightarrow> no_new_proper b b'"
  by (auto simp: bam_trim_def trim_split_def Let_def no_new_proper_def proper_flag_clear
      split: option.splits sum.splits if_splits)

lemma sanitize_pos_proper: "no_new_proper b (sanitize_pos b fl)"
  by (simp add: sanitize_pos_def Let_def no_new_proper_def tst_or_unmap_proper)

lemma sanitize_cigar_proper: "sanitize_cigar h b fl = Inr b' \<Longrightarrow> no_new_proper b b'"
  using bam_trim_proper[of b "h (tid b)" b']
  by (auto simp: sanitize_cigar_def Let_def no_new_proper_def tst_or_unmap_proper
      split: if_splits)

lemma sanitize_unmapped_proper: "sanitize_unmapped b fl = Inr b' \<Longrightarrow> no_new_proper b b'"
  by (auto simp: sanitize_unmapped_def sanitize_aux_def Let_def no_new_proper_def
      split: if_splits sum.splits)

lemma bam_sanitize_proper: "bam_sanitize h b fl = Inr b' \<Longrightarrow> no_new_proper b b'"
  by (auto simp: bam_sanitize_def split: sum.splits
      intro: nnp_trans[OF nnp_trans, OF sanitize_pos_proper sanitize_cigar_proper
                       sanitize_unmapped_proper])

lemma pair_fix_nnp:
  "pair_fix cfg pre cur pe ce = Inr (pre', cur') \<Longrightarrow>
   no_new_proper pre pre' \<and> no_new_proper cur cur'"
  using pair_fix_proper[of cfg pre cur pe ce pre' cur'] by (simp add: no_new_proper_def)

lemma fix_primaries_proper:
  "fix_primaries cfg ns b pre pe cur = Inr (b', pre', cur') \<Longrightarrow> list_all2 no_new_proper b b'"
proof (induction ns arbitrary: b pre pe cur)
  case Nil
  then show ?case by simp
next
  case (Cons n ns)
  show ?case
  proof (cases "tst (flag (b ! n)) (BAM_FSECONDARY OR BAM_FSUPPLEMENTARY)")
    case True
    with Cons.prems have "fix_primaries cfg ns b pre pe cur = Inr (b', pre', cur')" by simp
    then show ?thesis by (rule Cons.IH)
  next
    case False
    show ?thesis
    proof (cases pre)
      case None
      with False Cons.prems
      have "fix_primaries cfg ns b (Some n) (end_of (b ! n)) cur = Inr (b', pre', cur')" by simp
      then show ?thesis by (rule Cons.IH)
    next
      case (Some p)
      with False Cons.prems obtain p1 c1 where
        pf: "pair_fix cfg (b ! p) (b ! n) pe (end_of (b ! n)) = Inr (p1, c1)" and
        r: "fix_primaries cfg ns (b[p := p1, n := c1]) (Some p) pe (Some n) = Inr (b', pre', cur')"
        by (auto split: sum.splits)
      from pair_fix_nnp[OF pf] have n1: "no_new_proper (b ! p) p1" "no_new_proper (b ! n) c1"
        by simp_all
      have "list_all2 no_new_proper b (b[p := p1, n := c1])"
      proof (cases "n = p")
        case True
        with n1 show ?thesis by (simp add: nnp_list_update_any)
      next
        case False
        have "list_all2 no_new_proper b (b[p := p1])"
          using n1 by (simp add: nnp_list_update_any)
        moreover have "list_all2 no_new_proper (b[p := p1]) (b[p := p1, n := c1])"
          using n1 False by (intro nnp_list_update_any) simp
        ultimately show ?thesis by (rule nnp_list_trans)
      qed
      then show ?thesis using Cons.IH[OF r] by (rule nnp_list_trans)
    qed
  qed
qed

lemma and_not_proper: "no_new_proper r (r\<lparr>mtid := a, mpos := b, isize := c, flag := flag r AND NOT m\<rparr>)"
  by (auto simp: no_new_proper_def dest: tst_and_mono)

lemma unpaired_fix_proper: "unpaired_fix b pre cur = Inr b' \<Longrightarrow> list_all2 no_new_proper b b'"
  by (auto simp: unpaired_fix_def split: if_splits option.splits
      intro!: nnp_list_update_any and_not_proper)

lemma fix_template_proper: "fix_template cfg b n = Inr b' \<Longrightarrow> list_all2 no_new_proper b b'"
  by (auto simp: fix_template_def split: sum.splits
      dest!: fix_primaries_proper unpaired_fix_proper intro: nnp_list_trans)


text \<open>
  The state of the reader between two calls, for the list \<open>la\<close> of the input
  records read ahead (none or one): the array has its allocated length, the record
  read ahead is in its slot, and after the end-of-file mark nothing is left to read.
\<close>

definition reader_ok :: "bam_set \<Rightarrow> instream \<Rightarrow> bam1 list \<Rightarrow> bool" where
  "reader_ok bs inp la =
     (length (bs_b bs) = bs_ba bs \<and>
      (bs_eof bs \<longrightarrow> pending inp = [] \<and> la = []) \<and>
      (if bs_next bs < 0 then la = []
       else nat (bs_next bs) < length (bs_b bs) \<and>
            (\<exists>r0. la = [r0] \<and> no_new_proper r0 (bs_b bs ! nat (bs_next bs)))))"

lemma grow_b_array_props:
  assumes "grow_b_array b ba m = (b1, ba1)" and "length b = ba"
  shows "length b1 = ba1" "m \<le> length b1 \<or> m < ba" "length b \<le> length b1"
    "k \<le> length b \<Longrightarrow> take k b1 = take k b" "i < length b \<Longrightarrow> b1 ! i = b ! i"
  using assms by (auto simp: grow_b_array_def nth_append split: if_splits)

lemma grow_b_array_index:
  assumes "grow_b_array b ba (n + 1) = (b1, ba1)" and "length b = ba"
  shows "n < length b1"
  using assms by (auto simp: grow_b_array_def split: if_splits)

lemma nnp_take_update0:
  assumes "list_all2 no_new_proper g (take n b)" "0 < n" "n \<le> length b"
    "no_new_proper (b ! 0) b0"
  shows "list_all2 no_new_proper g (take n (b[0 := b0]))"
proof -
  have "take n (b[0 := b0]) = (take n b)[0 := b0]" by (simp add: take_update_swap)
  moreover have "list_all2 no_new_proper (take n b) ((take n b)[0 := b0])"
    using assms by (intro nnp_list_update_any) simp
  ultimately show ?thesis using assms(1) by (auto intro: nnp_list_trans)
qed

lemma read_group_inv:
  assumes "read_group h fl name tr rs b n ba = Inr (bs2, inp2)"
    and "length b = ba" and "0 < n" and "n \<le> length b"
    and "list_all2 no_new_proper g (take n b)"
  shows "\<exists>g1 la1. rs = g1 @ la1 @ pending inp2 \<and> bs_n bs2 = n + length g1 \<and>
           bs_n bs2 \<le> length (bs_b bs2) \<and>
           list_all2 no_new_proper (g @ g1) (take (bs_n bs2) (bs_b bs2)) \<and>
           reader_ok bs2 inp2 la1"
  using assms
proof (induction rs arbitrary: b n ba g)
  case Nil
  obtain b1 ba1 where gr: "grow_b_array b ba (n + 1) = (b1, ba1)"
    by (cases "grow_b_array b ba (n + 1)")
  note gp = grow_b_array_props[OF gr Nil.prems(2)] grow_b_array_index[OF gr Nil.prems(2)]
  from Nil.prems(1) gr obtain b0 where
    s: "bam_sanitize h (b1 ! 0) fl = Inr b0" and
    e: "bs2 = \<lparr>bs_b = b1[0 := b0], bs_n = n, bs_ba = ba1, bs_next = -1, bs_eof = True\<rparr>"
       "inp2 = \<lparr>pending = [], truncated = tr\<rparr>"
    by (auto split: if_splits sum.splits)
  have "list_all2 no_new_proper g (take n b1)" using Nil.prems gp by simp
  then have "list_all2 no_new_proper g (take n (b1[0 := b0]))"
    using Nil.prems gp bam_sanitize_proper[OF s] by (intro nnp_take_update0) simp_all
  moreover have "reader_ok bs2 inp2 []" using gp by (simp add: reader_ok_def e)
  moreover have "n \<le> length (b1[0 := b0])" using gp by simp
  ultimately show ?case unfolding e by (intro exI[of _ "[]"]) simp
next
  case (Cons r rs)
  obtain b1 ba1 where gr: "grow_b_array b ba (n + 1) = (b1, ba1)"
    by (cases "grow_b_array b ba (n + 1)")
  note gp = grow_b_array_props[OF gr Cons.prems(2)] grow_b_array_index[OF gr Cons.prems(2)]
  have z: "(b1[n := r]) ! 0 = b1 ! 0" using Cons.prems(3) by simp
  from Cons.prems(1) gr obtain b0 where s: "bam_sanitize h (b1 ! 0) fl = Inr b0"
    by (auto simp: z split: sum.splits)
  define b2 where "b2 = (b1[n := r])[0 := b0]"
  have l2: "length b2 = ba1" "n < length b2" using gp by (simp_all add: b2_def)
  have n2: "b2 ! n = r" using gp Cons.prems(3) by (simp add: b2_def)
  have "list_all2 no_new_proper g (take n b1)" using Cons.prems gp by simp
  then have "list_all2 no_new_proper g (take n (b1[n := r]))" by simp
  then have t2: "list_all2 no_new_proper g (take n b2)"
    unfolding b2_def using Cons.prems gp bam_sanitize_proper[OF s] z
    by (intro nnp_take_update0) simp_all
  show ?case
  proof (cases "c_str name \<noteq> c_str (qname (b2 ! n))")
    case True
    with Cons.prems(1) gr s z have
      e: "bs2 = \<lparr>bs_b = b2, bs_n = n, bs_ba = ba1, bs_next = int n, bs_eof = False\<rparr>"
         "inp2 = \<lparr>pending = rs, truncated = tr\<rparr>"
      by (auto simp: b2_def Let_def)
    have "reader_ok bs2 inp2 [r]" using l2 n2 by (simp add: reader_ok_def e)
    with t2 l2 show ?thesis unfolding e
      by (intro exI[of _ "[]"] exI[of _ "[r]"]) simp
  next
    case False
    with Cons.prems(1) gr s z have
      rg: "read_group h fl name tr rs b2 (n + 1) ba1 = Inr (bs2, inp2)"
      by (auto simp: b2_def Let_def)
    have "take (n + 1) b2 = take n b2 @ [r]"
      using l2 n2 by (simp add: take_Suc_conv_app_nth)
    with t2 have "list_all2 no_new_proper (g @ [r]) (take (n + 1) b2)"
      by (simp add: list_all2_appendI)
    from Cons.IH[OF rg l2(1) _ _ this] l2
    obtain g1 la1 where "rs = g1 @ la1 @ pending inp2" "bs_n bs2 = n + 1 + length g1"
      "bs_n bs2 \<le> length (bs_b bs2)"
      "list_all2 no_new_proper ((g @ [r]) @ g1) (take (bs_n bs2) (bs_b bs2))"
      "reader_ok bs2 inp2 la1"
      by auto
    then show ?thesis by (intro exI[of _ "r # g1"] exI[of _ la1]) simp
  qed
qed


lemma swap_nth0: "k < length xs \<Longrightarrow> (xs[0 := xs ! k, k := xs ! 0]) ! 0 = xs ! k"
proof (cases "k = 0")
  case True
  assume "k < length xs"
  with True show ?thesis by simp
next
  case False
  assume k: "k < length xs"
  have "0 < length xs" by (rule le_less_trans[OF le0 k])
  with False show ?thesis by (simp only: nth_list_update_neq nth_list_update_eq not_False_eq_True)
qed

lemma prime_template_inv:
  assumes "reader_ok bs inp la" and "prime_template h fl bs inp = Inr (Primed b1 ba1 rs)"
  shows "\<exists>r0. la @ pending inp = r0 # rs \<and> length b1 = ba1 \<and> 0 < length b1 \<and>
              no_new_proper r0 (b1 ! 0)"
proof (cases "bs_next bs < 0")
  case True
  with assms(1) have la: "la = []" and lb: "length (bs_b bs) = bs_ba bs"
    by (simp_all add: reader_ok_def)
  obtain bg bag where gr: "grow_b_array (bs_b bs) (bs_ba bs) 1 = (bg, bag)"
    by (cases "grow_b_array (bs_b bs) (bs_ba bs) 1")
  from grow_b_array_index[of "bs_b bs" "bs_ba bs" 0 bg bag] gr lb have pos: "0 < length bg"
    by simp
  from assms(2) True gr obtain r b0 where
    p: "pending inp = r # rs" and s: "bam_sanitize h r fl = Inr b0" and
    e: "b1 = bg[0 := b0]" "ba1 = bag"
    by (auto simp: prime_template_def split: list.splits sum.splits)
  from grow_b_array_props(1)[OF gr lb] pos bam_sanitize_proper[OF s] la p e
  show ?thesis by simp
next
  case False
  with assms(1) obtain r0 where la: "la = [r0]" and
    k: "nat (bs_next bs) < length (bs_b bs)" and
    r: "no_new_proper r0 (bs_b bs ! nat (bs_next bs))" and
    lb: "length (bs_b bs) = bs_ba bs"
    by (auto simp: reader_ok_def)
  from assms(2) False have
    e: "b1 = (bs_b bs)[0 := bs_b bs ! nat (bs_next bs), nat (bs_next bs) := bs_b bs ! 0]"
       "ba1 = bs_ba bs" "rs = pending inp"
    by (simp_all add: prime_template_def)
  have "b1 ! 0 = bs_b bs ! nat (bs_next bs)"
    unfolding e by (rule swap_nth0[OF k])
  with la k r lb e show ?thesis by simp
qed

lemma next_template_inv:
  assumes ok: "reader_ok bs inp la"
    and nt: "next_template h fl bs inp = Inr (res, bs1, inp1)" and res: "0 \<le> res"
  shows "\<exists>g la1. la @ pending inp = g @ la1 @ pending inp1 \<and> bs_n bs1 = length g \<and>
           length g \<le> length (bs_b bs1) \<and>
           list_all2 no_new_proper g (take (bs_n bs1) (bs_b bs1)) \<and>
           reader_ok bs1 inp1 la1"
proof -
  from nt res have ne: "\<not> bs_eof bs"
    by (auto simp: next_template_def split: if_splits)
  from nt res ne obtain b1 ba1 rs where
    p: "prime_template h fl bs inp = Inr (Primed b1 ba1 rs)" and
    r: "read_group h fl (qname (b1 ! 0)) (truncated inp) rs b1 1 ba1 = Inr (bs1, inp1)"
    by (auto simp: next_template_def split: sum.splits primed.splits if_splits
        dest: prime_template_Done)
  from prime_template_inv[OF ok p] obtain r0 where
    a: "la @ pending inp = r0 # rs" "length b1 = ba1" "0 < length b1"
       "no_new_proper r0 (b1 ! 0)"
    by blast
  have "take 1 b1 = [b1 ! 0]" using a(3) by (cases b1) simp_all
  with a(4) have "list_all2 no_new_proper [r0] (take 1 b1)" by simp
  from read_group_inv[OF r a(2) _ _ this] a(3)
  obtain g1 la1 where "rs = g1 @ la1 @ pending inp1" "bs_n bs1 = 1 + length g1"
    "bs_n bs1 \<le> length (bs_b bs1)"
    "list_all2 no_new_proper ([r0] @ g1) (take (bs_n bs1) (bs_b bs1))"
    "reader_ok bs1 inp1 la1"
    by auto
  with a(1) show ?thesis by (intro exI[of _ "r0 # g1"] exI[of _ la1]) simp
qed

lemma next_template_end:
  assumes ok: "reader_ok bs inp la"
    and nt: "next_template h fl bs inp = Inr (res, bs1, inp1)" and res: "\<not> 0 \<le> res"
  shows "la = [] \<and> pending inp = []"
proof (cases "bs_eof bs")
  case True
  with ok show ?thesis by (simp add: reader_ok_def)
next
  case False
  with nt res obtain code b1 ba1 where
    p: "prime_template h fl bs inp = Inr (Done code b1 ba1)"
    by (auto simp: next_template_def split: sum.splits primed.splits if_splits)
  then have "bs_next bs < 0 \<and> pending inp = []"
    by (auto simp: prime_template_def split: if_splits prod.splits list.splits sum.splits)
  with ok show ?thesis by (simp add: reader_ok_def)
qed

text \<open>The records that the removal policy lets through to the output.\<close>

definition kept :: "config \<Rightarrow> bam1 \<Rightarrow> bool" where
  "kept cfg r = (\<not> (remove_reads cfg \<and> tst (flag r) (BAM_FSECONDARY OR BAM_FUNMAP)))"

lemma written_kept: "written cfg b n = filter (kept cfg) (take n b)"
  unfolding written_def kept_def by simp

lemma core_loop_inv:
  "reader_ok bs inp la \<Longrightarrow> core_loop cfg h fl bs inp out = Inr res \<Longrightarrow>
   \<exists>ys. list_all2 no_new_proper (la @ pending inp) ys \<and> res = out @ filter (kept cfg) ys"
proof (induction cfg h fl bs inp out arbitrary: la rule: core_loop.induct)
  case (1 cfg h fl bs inp out)
  from "1.prems"(2) obtain result bs1 inp1 where
    nt: "next_template h fl bs inp = Inr (result, bs1, inp1)"
    by (subst (asm) core_loop.simps) (auto split: sum.splits)
  show ?case
  proof (cases "0 \<le> result")
    case False
    with "1.prems"(2) nt have "res = out"
      by (subst (asm) core_loop.simps) simp
    moreover from next_template_end[OF "1.prems"(1) nt False]
    have "la @ pending inp = []" by simp
    ultimately show ?thesis by simp
  next
    case True
    with "1.prems"(2) nt obtain b1 where
      ft: "fix_template cfg (bs_b bs1) (bs_n bs1) = Inr b1" and
      cl: "core_loop cfg h fl (bs1\<lparr>bs_b := b1\<rparr>) inp1 (out @ written cfg b1 (bs_n bs1)) = Inr res"
      by (subst (asm) core_loop.simps) (auto split: sum.splits)
    from next_template_inv[OF "1.prems"(1) nt True] obtain g la1 where
      g: "la @ pending inp = g @ la1 @ pending inp1" "bs_n bs1 = length g"
         "length g \<le> length (bs_b bs1)"
         "list_all2 no_new_proper g (take (bs_n bs1) (bs_b bs1))" and
      ok1: "reader_ok bs1 inp1 la1"
      by blast
    note fp = fix_template_proper[OF ft]
    then have len: "length b1 = length (bs_b bs1)" by (simp add: list_all2_lengthD)
    have ok2: "reader_ok (bs1\<lparr>bs_b := b1\<rparr>) inp1 la1"
    proof (cases "bs_next bs1 < 0")
      case True
      with ok1 len show ?thesis by (simp add: reader_ok_def)
    next
      case False
      with ok1 obtain r0 where r0: "la1 = [r0]" "nat (bs_next bs1) < length (bs_b bs1)"
        "no_new_proper r0 (bs_b bs1 ! nat (bs_next bs1))"
        by (auto simp: reader_ok_def)
      from fp r0(2) have "no_new_proper (bs_b bs1 ! nat (bs_next bs1)) (b1 ! nat (bs_next bs1))"
        by (simp add: list_all2_nthD)
      with r0(3) have "no_new_proper r0 (b1 ! nat (bs_next bs1))" by (rule nnp_trans)
      with ok1 r0 len False show ?thesis by (simp add: reader_ok_def)
    qed
    from "1.IH"[OF nt refl refl True ft ok2 cl] obtain ys where
      ys: "list_all2 no_new_proper (la1 @ pending inp1) ys"
          "res = (out @ written cfg b1 (bs_n bs1)) @ filter (kept cfg) ys"
      by blast
    have "list_all2 no_new_proper (take (bs_n bs1) (bs_b bs1)) (take (bs_n bs1) b1)"
      using fp by (rule list_all2_takeI)
    with g(4) have "list_all2 no_new_proper g (take (bs_n bs1) b1)" by (rule nnp_list_trans)
    then have "list_all2 no_new_proper (g @ la1 @ pending inp1) (take (bs_n bs1) b1 @ ys)"
      using ys(1) by (rule list_all2_appendI)
    moreover have "res = out @ filter (kept cfg) (take (bs_n bs1) b1 @ ys)"
      using ys(2) by (simp add: written_kept)
    ultimately show ?thesis unfolding g(1) by blast
  qed
qed

lemma reader_ok_init: "reader_ok bs_init inp []"
  by (simp add: reader_ok_def bs_init_def)

text \<open>
  C9.  A run of the main loop that ends without an error writes a list that is the
  input, record by record and in order, with no proper-pair flag set that was not set
  on input, and with the records that the removal policy drops left out.  The same
  holds of every single call of the sanitizer and of every pass of the orchestrator
  over a template, whatever happens after them.
\<close>

theorem C9_proper_pair_never_set:
  "(bam_mating_core cfg h fl inp = Inr out \<longrightarrow>
      (\<exists>ys. list_all2 no_new_proper (pending inp) ys \<and> out = filter (kept cfg) ys)) \<and>
   (bam_sanitize h r fl = Inr r' \<longrightarrow> no_new_proper r r') \<and>
   (fix_template cfg b n = Inr b' \<longrightarrow> list_all2 no_new_proper b b')"
proof -
  have "\<exists>ys. list_all2 no_new_proper (pending inp) ys \<and> out = filter (kept cfg) ys"
    if "bam_mating_core cfg h fl inp = Inr out"
  proof -
    from that have "core_loop cfg h fl bs_init inp [] = Inr out"
      by (simp add: bam_mating_core_def)
    from core_loop_inv[OF reader_ok_init this] show ?thesis by simp
  qed
  then show ?thesis
    using bam_sanitize_proper[of h r fl r'] fix_template_proper[of cfg b n b'] by blast
qed

lemma next_template_eof: "bs_eof bs \<Longrightarrow> next_template h fl bs inp = Inr (-1, bs, inp)"
  by (simp add: next_template_def)

lemma core_loop_eof: "bs_eof bs \<Longrightarrow> core_loop cfg h fl bs inp out = Inr out"
  by (subst core_loop.simps) (simp add: next_template_eof)

lemma run_single_primary:
  "bam_mating_core cfg_plain (\<lambda>t. 100) FIX_ALL
     \<lparr>pending = [mk_read 0 10 3 [bam_cigar_gen 50 BAM_CMATCH] []], truncated = False\<rparr>
   = Inr [(mk_read 0 10 3 [bam_cigar_gen 50 BAM_CMATCH] [])\<lparr>flag := 0\<rparr>]"
proof -
  let ?r = "mk_read 0 10 3 [bam_cigar_gen 50 BAM_CMATCH] []"
  let ?r' = "?r\<lparr>mtid := -1, mpos := -1, isize := 0, flag := flag ?r AND NOT PAIR_FLAGS\<rparr>"
  let ?bs1 = "\<lparr>bs_b = [?r, bam_zero], bs_n = 1, bs_ba = 2, bs_next = -1, bs_eof = True\<rparr>"
  let ?in0 = "\<lparr>pending = [?r], truncated = False\<rparr>"
  let ?in1 = "\<lparr>pending = [], truncated = False\<rparr>"
  have s: "bam_sanitize (\<lambda>t. 100) ?r FIX_ALL = Inr ?r"
    by (rule sanitize_valid_noop)
       (simp_all add: mk_read_def tst_def flag_defs bam_endpos_def cigar_50M)
  have p: "prime_template (\<lambda>t. 100) FIX_ALL bs_init ?in0 = Inr (Primed [?r] 1 [])"
    using s by (simp add: prime_template_def bs_init_def grow_b_array_def)
  have g: "read_group (\<lambda>t. 100) FIX_ALL (qname ?r) False [] [?r] 1 1 = Inr (?bs1, ?in1)"
    using s by (simp add: grow_b_array_def)
  have n: "next_template (\<lambda>t. 100) FIX_ALL bs_init ?in0 = Inr (1, ?bs1, ?in1)"
    using p g by (simp add: next_template_def bs_init_def)
  have ft: "fix_template cfg_plain [?r, bam_zero] 1 = Inr ([?r, bam_zero][0 := ?r'])"
    using fix_template_single[of 0 1 "[?r, bam_zero]" cfg_plain]
    by (simp add: mk_read_def tst_def flag_defs)
  have w: "written cfg_plain [?r', bam_zero] 1 = [?r']"
    by (simp add: written_def cfg_plain_def)
  have "core_loop cfg_plain (\<lambda>t. 100) FIX_ALL bs_init ?in0 [] = Inr [?r']"
    using ft w by (subst core_loop.simps) (simp add: n core_loop_eof)
  moreover have "?r' = ?r\<lparr>flag := 0\<rparr>"
    by (simp add: mk_read_def PAIR_FLAGS_def flag_defs)
  ultimately show ?thesis by (simp add: bam_mating_core_def)
qed

theorem C9_proper_pair_never_set_witness:
  "(\<exists>ys. list_all2 no_new_proper [mk_read 0 10 3 [bam_cigar_gen 50 BAM_CMATCH] []] ys \<and>
         [(mk_read 0 10 3 [bam_cigar_gen 50 BAM_CMATCH] [])\<lparr>flag := 0\<rparr>]
           = filter (kept cfg_plain) ys) \<and>
   no_new_proper (mk_read 0 10 3 [bam_cigar_gen 50 BAM_CMATCH] [])
     (mk_read 0 10 3 [bam_cigar_gen 50 BAM_CMATCH] []) \<and>
   list_all2 no_new_proper
     [mk_read 0 10 3 [bam_cigar_gen 50 BAM_CMATCH] [], bam_zero]
     ([mk_read 0 10 3 [bam_cigar_gen 50 BAM_CMATCH] [], bam_zero]
        [0 := (mk_read 0 10 3 [bam_cigar_gen 50 BAM_CMATCH] [])
                \<lparr>mtid := -1, mpos := -1, isize := 0,
                 flag := flag (mk_read 0 10 3 [bam_cigar_gen 50 BAM_CMATCH] []) AND NOT PAIR_FLAGS\<rparr>])"
proof -
  let ?r = "mk_read 0 10 3 [bam_cigar_gen 50 BAM_CMATCH] []"
  have s: "bam_sanitize (\<lambda>t. 100) ?r FIX_ALL = Inr ?r"
    by (rule sanitize_valid_noop)
       (simp_all add: mk_read_def tst_def flag_defs bam_endpos_def cigar_50M)
  have ft: "fix_template cfg_plain [?r, bam_zero] 1 = Inr ([?r, bam_zero]
      [0 := ?r\<lparr>mtid := -1, mpos := -1, isize := 0, flag := flag ?r AND NOT PAIR_FLAGS\<rparr>])"
    using fix_template_single[of 0 1 "[?r, bam_zero]" cfg_plain]
    by (simp add: mk_read_def tst_def flag_defs)
  from C9_proper_pair_never_set[of cfg_plain "\<lambda>t. 100" FIX_ALL
      "\<lparr>pending = [?r], truncated = False\<rparr>" "[?r\<lparr>flag := 0\<rparr>]" ?r ?r "[?r, bam_zero]" 1
      "[?r, bam_zero][0 := ?r\<lparr>mtid := -1, mpos := -1, isize := 0, flag := flag ?r AND NOT PAIR_FLAGS\<rparr>]"]
    run_single_primary s ft
  show ?thesis by simp
qed

section \<open>Properties of the mate-tag mirroring\<close>

text \<open>
  \<open>has_key\<close> tells whether an entry carries a two-character key, and
  \<open>tag_value\<close> is what a caller of \<^verbatim>\<open>bam_aux_get\<close> sees of a tag: the
  type code and the value bytes from the returned pointer up to the end of the entry,
  \<open>None\<close> when the lookup returns NULL.  The example stream holds MC:Z:*, MQ:C:9
  and XX:Z:A.
\<close>

definition has_key :: "u8 \<Rightarrow> u8 \<Rightarrow> u8 list \<Rightarrow> bool" where
  "has_key t0 t1 e = (take 2 e = [t0, t1])"

definition tag_value :: "u8 list \<Rightarrow> u8 \<Rightarrow> u8 \<Rightarrow> u8 list option" where
  "tag_value a t0 t1 =
     (case bam_aux_get a t0 t1 of
        At s \<Rightarrow> (case skip_aux (drop s a) of
                   Some k \<Rightarrow> Some (take k (drop s a))
                 | None \<Rightarrow> None)
      | _ \<Rightarrow> None)"

definition ex_mq_tags :: "u8 list list" where
  "ex_mq_tags = [[77, 67, 90, 42, 0], [77, 81, 67, 9], [88, 88, 90, 65, 0]]"

lemma has_key_nth:
  "2 \<le> length e \<Longrightarrow> has_key t0 t1 e \<longleftrightarrow> e ! 0 = t0 \<and> e ! 1 = t1"
proof -
  assume "2 \<le> length e"
  then obtain a b r where e: "e = a # b # r" by (cases e; cases "tl e") auto
  show ?thesis unfolding e by (simp add: has_key_def)
qed

lemma aux_get_loop_hit:
  assumes "a ! (s - 2) = t0" "a ! (s - 1) = t1" "skip_aux (drop s a) = Some k"
    "\<not> ((a ! s = 90 \<or> a ! s = 72) \<and> a ! (s + k - 1) \<noteq> 0)"
  shows "aux_get_loop a t0 t1 s = At s"
  using assms by (subst aux_get_loop.simps) auto

lemma aux_get_loop_miss:
  assumes "\<not> (a ! (s - 2) = t0 \<and> a ! (s - 1) = t1)"
  shows "aux_get_loop a t0 t1 s =
           (case bam_aux_next a s of At n \<Rightarrow> aux_get_loop a t0 t1 n | r \<Rightarrow> r)"
  using assms by (subst aux_get_loop.simps) auto

lemma nth_in_middle:
  assumes "i < length e"
  shows "(pre @ e @ rest) ! (length pre + i) = e ! i"
  using assms by (simp add: nth_append)

text \<open>The type code and the last byte of a complete entry, as the accessor reads them.\<close>

lemma valid_tag_last_check:
  assumes "valid_tag e"
  shows "\<not> ((e ! 2 = 90 \<or> e ! 2 = 72) \<and> e ! (length e - 1) \<noteq> 0)"
proof -
  from assms have "e \<noteq> []" by (auto simp: valid_tag_def)
  then have "last e = e ! (length e - 1)" by (rule last_conv_nth)
  with assms show ?thesis by (auto simp: valid_tag_def split: if_splits)
qed

lemma aux_get_loop_at:
  assumes v: "valid_tag e" and hk: "has_key t0 t1 e"
  shows "aux_get_loop (pre @ e @ rest) t0 t1 (length pre + 2) = At (length pre + 2)"
proof -
  note le = valid_tag_length[OF v]
  let ?a = "pre @ e @ rest"
  have e01: "e ! 0 = t0" "e ! 1 = t1"
    using le hk has_key_nth[of e t0 t1] by simp_all
  have "?a ! (length pre + 0) = e ! 0" "?a ! (length pre + 1) = e ! 1"
    using le by (simp_all only: nth_append_length_plus) (auto simp: nth_append)
  with e01 have k: "?a ! (length pre + 2 - 2) = t0" "?a ! (length pre + 2 - 1) = t1"
    by simp_all
  have sk: "skip_aux (drop (length pre + 2) ?a) = Some (length e - 2)"
    using skip_aux_append[OF v, of rest] le by simp
  have ix: "length pre + 2 + (length e - 2) - 1 = length pre + (length e - 1)"
    using le by arith
  have ty: "?a ! (length pre + 2) = e ! 2"
    "?a ! (length pre + 2 + (length e - 2) - 1) = e ! (length e - 1)"
    unfolding ix using le by (simp_all only: nth_append_length_plus) (auto simp: nth_append)
  have "\<not> ((?a ! (length pre + 2) = 90 \<or> ?a ! (length pre + 2) = 72)
            \<and> ?a ! (length pre + 2 + (length e - 2) - 1) \<noteq> 0)"
    unfolding ty by (rule valid_tag_last_check[OF v])
  with k sk show ?thesis by (rule aux_get_loop_hit)
qed

lemma aux_get_loop_step:
  assumes vx: "valid_tag x" and nk: "\<not> has_key t0 t1 x"
  shows "aux_get_loop (pre @ x @ tail) t0 t1 (length pre + 2) =
        (if length tail \<le> 2 then ENOENT
         else aux_get_loop ((pre @ x) @ tail) t0 t1 (length (pre @ x) + 2))"
proof -
  note lx = valid_tag_length[OF vx]
  let ?a = "pre @ x @ tail"
  have "?a ! (length pre + 0) = x ! 0" "?a ! (length pre + 1) = x ! 1"
    using lx by (simp_all only: nth_append_length_plus) (auto simp: nth_append)
  then have "?a ! (length pre + 2 - 2) = x ! 0" "?a ! (length pre + 2 - 1) = x ! 1"
    by simp_all
  with nk lx have "\<not> (?a ! (length pre + 2 - 2) = t0 \<and> ?a ! (length pre + 2 - 1) = t1)"
    by (simp add: has_key_nth)
  then have "aux_get_loop ?a t0 t1 (length pre + 2) =
         (case bam_aux_next ?a (length pre + 2) of At n \<Rightarrow> aux_get_loop ?a t0 t1 n | r \<Rightarrow> r)"
    by (rule aux_get_loop_miss)
  moreover have "skip_aux (drop (length pre + 2) ?a) = Some (length x - 2)"
    using skip_aux_append[OF vx, of tail] lx by simp
  then have "bam_aux_next ?a (length pre + 2) =
      (if length tail \<le> 2 then ENOENT else At (length pre + length x + 2))"
    using lx by (auto simp: bam_aux_next_def)
  ultimately show ?thesis by simp
qed

lemma aux_get_loop_found:
  assumes "\<forall>x\<in>set xs. valid_tag x \<and> \<not> has_key t0 t1 x" "valid_tag e" "has_key t0 t1 e"
  shows "aux_get_loop (pre @ concat xs @ e @ rest) t0 t1 (length pre + 2)
             = At (length pre + length (concat xs) + 2)"
  using assms(1)
proof (induction xs arbitrary: pre)
  case Nil
  show ?case using aux_get_loop_at[OF assms(2,3), of pre rest] by simp
next
  case (Cons x xs)
  from Cons.prems have vx: "valid_tag x" and nk: "\<not> has_key t0 t1 x"
    and rest': "\<forall>y\<in>set xs. valid_tag y \<and> \<not> has_key t0 t1 y"
    by simp_all
  note le = valid_tag_length[OF assms(2)]
  have "aux_get_loop (pre @ x @ (concat xs @ e @ rest)) t0 t1 (length pre + 2)
        = aux_get_loop ((pre @ x) @ concat xs @ e @ rest) t0 t1 (length (pre @ x) + 2)"
    using aux_get_loop_step[OF vx nk, of pre "concat xs @ e @ rest"] le by simp
  also have "\<dots> = At (length (pre @ x) + length (concat xs) + 2)"
    by (rule Cons.IH[OF rest'])
  finally show ?case by (simp add: add.assoc)
qed

lemma aux_get_loop_none:
  assumes "\<forall>x\<in>set xs. valid_tag x \<and> \<not> has_key t0 t1 x" "xs \<noteq> []"
  shows "aux_get_loop (pre @ concat xs) t0 t1 (length pre + 2) = ENOENT"
  using assms
proof (induction xs arbitrary: pre)
  case Nil
  then show ?case by simp
next
  case (Cons x xs)
  from Cons.prems have vx: "valid_tag x" and nk: "\<not> has_key t0 t1 x"
    and rest': "\<forall>y\<in>set xs. valid_tag y \<and> \<not> has_key t0 t1 y"
    by simp_all
  show ?case
  proof (cases "xs = []")
    case True
    with aux_get_loop_step[OF vx nk, of pre "[]"] show ?thesis by simp
  next
    case False
    with rest' concat_valid_short[of xs] have "\<not> length (concat xs) \<le> 2" by auto
    then have "aux_get_loop (pre @ x @ concat xs) t0 t1 (length pre + 2)
        = aux_get_loop ((pre @ x) @ concat xs) t0 t1 (length (pre @ x) + 2)"
      using aux_get_loop_step[OF vx nk, of pre "concat xs"] by simp
    also have "\<dots> = ENOENT" by (rule Cons.IH[OF rest' False])
    finally show ?thesis by simp
  qed
qed


lemma bam_aux_get_found:
  assumes "\<forall>x\<in>set xs. valid_tag x \<and> \<not> has_key t0 t1 x" "valid_tag e" "has_key t0 t1 e"
  shows "bam_aux_get (concat xs @ e @ rest) t0 t1 = At (length (concat xs) + 2)"
proof -
  from valid_tag_length[OF assms(2)] have "\<not> length (concat xs @ e @ rest) \<le> 2" by simp
  then have "bam_aux_first (concat xs @ e @ rest) = At 2" by (simp add: bam_aux_first_def)
  moreover have "aux_get_loop ([] @ concat xs @ e @ rest) t0 t1 (length ([] :: u8 list) + 2)
      = At (length ([] :: u8 list) + length (concat xs) + 2)"
    using assms by (rule aux_get_loop_found)
  ultimately show ?thesis by (simp add: bam_aux_get_def numeral_2_eq_2)
qed

lemma bam_aux_get_none:
  assumes "\<forall>x\<in>set xs. valid_tag x \<and> \<not> has_key t0 t1 x"
  shows "bam_aux_get (concat xs) t0 t1 = ENOENT"
proof (cases "xs = []")
  case True
  then show ?thesis by (simp add: bam_aux_get_def bam_aux_first_def)
next
  case False
  with assms concat_valid_short[of xs] have "\<not> length (concat xs) \<le> 2" by auto
  then have "bam_aux_first (concat xs) = At 2" by (simp add: bam_aux_first_def)
  moreover have "aux_get_loop ([] @ concat xs) t0 t1 (length ([] :: u8 list) + 2) = ENOENT"
    using assms False by (rule aux_get_loop_none)
  ultimately show ?thesis by (simp add: bam_aux_get_def numeral_2_eq_2)
qed

lemma find_first:
  "\<forall>x\<in>set xs. \<not> P x \<Longrightarrow> P e \<Longrightarrow> find P (xs @ e # ys) = Some e"
  by (induction xs) auto

lemma find_filter:
  "find P xs = (case filter P xs of [] \<Rightarrow> None | x # _ \<Rightarrow> Some x)"
  by (induction xs) auto

lemma tag_value_valid:
  assumes "\<forall>e\<in>set es. valid_tag e"
  shows "tag_value (concat es) t0 t1 = map_option (drop 2) (find (has_key t0 t1) es)"
proof (cases "\<exists>e\<in>set es. has_key t0 t1 e")
  case True
  from split_list_first_prop[OF this]
  obtain xs e ys where es: "es = xs @ e # ys" and hk: "has_key t0 t1 e"
    and nk: "\<forall>x\<in>set xs. \<not> has_key t0 t1 x"
    by blast
  from assms es have v: "valid_tag e" and vx: "\<forall>x\<in>set xs. valid_tag x \<and> \<not> has_key t0 t1 x"
    using nk by auto
  note le = valid_tag_length[OF v]
  have g: "bam_aux_get (concat es) t0 t1 = At (length (concat xs) + 2)"
    using bam_aux_get_found[OF vx v hk, of "concat ys"] es by simp
  have d: "drop (length (concat xs) + 2) (concat es) = drop 2 e @ concat ys"
    using es le by simp
  have sk: "skip_aux (drop 2 e @ concat ys) = Some (length e - 2)"
    using v by (rule skip_aux_append)
  have "tag_value (concat es) t0 t1 = Some (take (length e - 2) (drop 2 e @ concat ys))"
    by (simp only: tag_value_def g aux_ptr.case d sk option.case)
  then have "tag_value (concat es) t0 t1 = Some (drop 2 e)" by simp
  moreover have "find (has_key t0 t1) es = Some e"
    unfolding es using nk hk by (rule find_first)
  ultimately show ?thesis by simp
next
  case False
  with assms have "\<forall>x\<in>set es. valid_tag x \<and> \<not> has_key t0 t1 x" by auto
  then have "bam_aux_get (concat es) t0 t1 = ENOENT" by (rule bam_aux_get_none)
  moreover from False have "find (has_key t0 t1) es = None" by (simp add: find_None_iff)
  ultimately show ?thesis by (simp add: tag_value_def)
qed

lemma aux_del_tag_valid:
  assumes v: "\<forall>e\<in>set es. valid_tag e" and a: "aux b = concat es"
  shows "\<exists>es'. aux (aux_del_tag b t0 t1) = concat es' \<and> (\<forall>e\<in>set es'. valid_tag e) \<and>
           (\<forall>P. (\<forall>e. has_key t0 t1 e \<longrightarrow> \<not> P e) \<longrightarrow> filter P es' = filter P es)"
proof (cases "\<exists>e\<in>set es. has_key t0 t1 e")
  case True
  from split_list_first_prop[OF this]
  obtain xs e ys where es: "es = xs @ e # ys" and hk: "has_key t0 t1 e"
    and nk: "\<forall>x\<in>set xs. \<not> has_key t0 t1 x"
    by blast
  from v es have ve: "valid_tag e" and vx: "\<forall>x\<in>set xs. valid_tag x \<and> \<not> has_key t0 t1 x"
    using nk by auto
  note le = valid_tag_length[OF ve]
  have g: "bam_aux_get (aux b) t0 t1 = At (length (concat xs) + 2)"
    using bam_aux_get_found[OF vx ve hk, of "concat ys"] es a by simp
  have d: "drop (length (concat xs) + 2) (aux b) = drop 2 e @ concat ys"
    using es le a by simp
  have sk: "skip_aux (drop 2 e @ concat ys) = Some (length e - 2)"
    using ve by (rule skip_aux_append)
  have "aux (bam_aux_del b (length (concat xs) + 2)) = concat (xs @ ys)"
    using sk le by (simp add: bam_aux_del_def d) (simp add: a es)
  then have "aux (aux_del_tag b t0 t1) = concat (xs @ ys)"
    by (simp add: aux_del_tag_def g)
  moreover from v es have "\<forall>e\<in>set (xs @ ys). valid_tag e" by auto
  moreover have "\<forall>P. (\<forall>e. has_key t0 t1 e \<longrightarrow> \<not> P e) \<longrightarrow> filter P (xs @ ys) = filter P es"
    using hk es by auto
  ultimately show ?thesis by blast
next
  case False
  with v have "\<forall>x\<in>set es. valid_tag x \<and> \<not> has_key t0 t1 x" by auto
  then have "bam_aux_get (aux b) t0 t1 = ENOENT" unfolding a by (rule bam_aux_get_none)
  then have "aux_del_tag b t0 t1 = b" by (simp add: aux_del_tag_def)
  with v a show ?thesis by auto
qed

lemma bam_aux_append_valid:
  assumes v: "\<forall>e\<in>set es. valid_tag e" and a: "aux b = concat es"
    and n: "valid_tag ([t0, t1, ty] @ take len dat)"
  shows "\<exists>es'. aux (fst (bam_aux_append b t0 t1 ty len dat)) = concat es' \<and>
           (\<forall>e\<in>set es'. valid_tag e) \<and>
           (\<forall>P. (\<forall>e. has_key t0 t1 e \<longrightarrow> \<not> P e) \<longrightarrow> filter P es' = filter P es)"
proof (cases "int (l_data b) + 3 + int len > 2147483647")
  case True
  then have "fst (bam_aux_append b t0 t1 ty len dat) = b" by (simp add: bam_aux_append_def)
  with v a show ?thesis by auto
next
  case False
  let ?n = "[t0, t1, ty] @ take len dat"
  from False have "aux (fst (bam_aux_append b t0 t1 ty len dat)) = concat (es @ [?n])"
    by (simp add: bam_aux_append_def a)
  moreover from v n have "\<forall>e\<in>set (es @ [?n]). valid_tag e" by auto
  moreover have "has_key t0 t1 ?n" by (simp add: has_key_def)
  then have "\<forall>P. (\<forall>e. has_key t0 t1 e \<longrightarrow> \<not> P e) \<longrightarrow> filter P (es @ [?n]) = filter P es"
    by auto
  ultimately show ?thesis by blast
qed

text \<open>The formatted CIGAR has no NUL byte, so the MC entry is a complete string entry.\<close>

lemma digit_nonzero: "d < 10 \<Longrightarrow> (48 :: u8) + of_nat d \<noteq> 0"
proof -
  assume "d < 10"
  then have "d = 0 \<or> d = 1 \<or> d = 2 \<or> d = 3 \<or> d = 4 \<or> d = 5 \<or> d = 6 \<or> d = 7 \<or> d = 8 \<or> d = 9"
    by arith
  then show ?thesis by auto
qed

lemma dec_digits_nonzero: "0 \<notin> set (dec_digits n)"
proof (induction n rule: dec_digits.induct)
  case (1 n)
  show ?case
  proof (cases "n < 10")
    case True
    then show ?thesis using digit_nonzero[of n] by (subst dec_digits.simps) auto
  next
    case False
    have "n mod 10 < 10" by simp
    from digit_nonzero[OF this] 1[OF False] False show ?thesis
      by (subst dec_digits.simps) auto
  qed
qed

lemma kputw_nonzero: "0 \<notin> set (kputw c)"
  using dec_digits_nonzero by (simp add: kputw_def)

lemma opchr_nonzero: "bam_cigar_opchr c \<noteq> 0"
proof -
  have "unat (bam_cigar_op c) < 16"
  proof -
    have "bam_cigar_op c \<le> 15" by (simp add: bam_cigar_op_def word_and_le1)
    then have "unat (bam_cigar_op c) \<le> unat (15 :: u32)" by (simp only: word_le_nat_alt)
    then show ?thesis by simp
  qed
  then have "\<forall>x\<in>set [77, 73, 68, 78, 83, 72, 80, 61, 88, 66, 63, 63, 63, 63, 63, 63 :: u8]. x \<noteq> 0
     \<Longrightarrow> ?thesis"
    unfolding bam_cigar_opchr_def by (intro bspec[OF _ nth_mem, where P = "\<lambda>x. x \<noteq> 0"]) simp_all
  then show ?thesis by simp
qed

lemma cigar_chars_nonzero: "0 \<notin> set (cigar_chars cs)"
  using kputw_nonzero opchr_nonzero by (auto simp: cigar_chars_def)

lemma bam_format_cigar_nonzero: "0 \<notin> set (bam_format_cigar b)"
  using cigar_chars_nonzero by (simp add: bam_format_cigar_def)

lemma string_tag_valid:
  assumes "0 \<notin> set mc"
  shows "valid_tag ([t0, t1, 90] @ take (length mc + 1) (mc @ [0]))"
proof -
  from assms have "takeWhile (\<lambda>x. x \<noteq> 0) (mc @ [0]) = mc"
    by (induction mc) auto
  then show ?thesis
    by (simp add: valid_tag_def skip_aux_def aux_type2size_def)
qed

text \<open>
  C10.  When the source record is unmapped, \<^verbatim>\<open>sync_mq_mc\<close> leaves the MQ tags
  of a destination with a well-formed tag stream as they were: the stream stays
  well-formed, its entries keyed MQ are the same entries in the same order, and a
  lookup of MQ returns the same type code and value as before the call.
\<close>

theorem C10_unmapped_source_keeps_MQ:
  assumes "tst (flag src) BAM_FUNMAP" "aux dest = concat es" "\<forall>e\<in>set es. valid_tag e"
  shows "(\<exists>es'. aux (sync_mq_mc src dest) = concat es' \<and> (\<forall>e\<in>set es'. valid_tag e) \<and>
            filter (has_key 77 81) es' = filter (has_key 77 81) es) \<and>
         tag_value (aux (sync_mq_mc src dest)) 77 81 = tag_value (aux dest) 77 81"
proof -
  have nk: "\<forall>e. has_key 77 67 e \<longrightarrow> \<not> has_key 77 81 e" by (auto simp: has_key_def)
  have "\<exists>es'. aux (sync_mq_mc src dest) = concat es' \<and> (\<forall>e\<in>set es'. valid_tag e) \<and>
            filter (has_key 77 81) es' = filter (has_key 77 81) es"
  proof (cases "tst (flag dest) BAM_FUNMAP")
    case True
    with assms(1) have "sync_mq_mc src dest = dest" by (simp add: sync_mq_mc_def)
    with assms(2,3) show ?thesis by auto
  next
    case False
    define mc where "mc = bam_format_cigar src"
    define d1 where "d1 = aux_del_tag dest 77 67"
    from False assms(1) have s: "sync_mq_mc src dest =
        fst (bam_aux_append d1 77 67 90 (length mc + 1) (mc @ [0]))"
      by (simp add: sync_mq_mc_def Let_def mc_def d1_def)
    from aux_del_tag_valid[OF assms(3,2), of 77 67] obtain es1 where
      e1: "aux d1 = concat es1" "\<forall>e\<in>set es1. valid_tag e"
        "filter (has_key 77 81) es1 = filter (has_key 77 81) es"
      unfolding d1_def using nk by blast
    have "0 \<notin> set mc" unfolding mc_def by (rule bam_format_cigar_nonzero)
    then have "valid_tag ([77, 67, 90] @ take (length mc + 1) (mc @ [0]))"
      by (rule string_tag_valid)
    from bam_aux_append_valid[OF e1(2,1) this] obtain es2 where
      e2: "aux (fst (bam_aux_append d1 77 67 90 (length mc + 1) (mc @ [0]))) = concat es2"
        "\<forall>e\<in>set es2. valid_tag e"
        "filter (has_key 77 81) es2 = filter (has_key 77 81) es1"
      using nk by blast
    from e2 e1(3) show ?thesis unfolding s by auto
  qed
  then obtain es' where r: "aux (sync_mq_mc src dest) = concat es'" "\<forall>e\<in>set es'. valid_tag e"
    "filter (has_key 77 81) es' = filter (has_key 77 81) es" by blast
  have "tag_value (aux (sync_mq_mc src dest)) 77 81 = map_option (drop 2) (find (has_key 77 81) es')"
    unfolding r(1) using r(2) by (rule tag_value_valid)
  also have "\<dots> = map_option (drop 2) (find (has_key 77 81) es)"
    by (simp only: find_filter[of "has_key 77 81"] r(3))
  also have "\<dots> = tag_value (aux dest) 77 81"
    unfolding assms(2) using assms(3) by (rule tag_value_valid[symmetric])
  finally show ?thesis using r by blast
qed


lemma ex_mq_tags_valid: "\<forall>e\<in>set ex_mq_tags. valid_tag e"
  by (simp add: ex_mq_tags_def valid_tag_def skip_aux_def aux_type2size_def)

theorem C10_unmapped_source_keeps_MQ_witness:
  "tag_value (aux (sync_mq_mc (mk_read (-1) (-1) 4 [] [])
                              (mk_read 0 10 0 [160] (concat ex_mq_tags)))) 77 81
     = tag_value (aux (mk_read 0 10 0 [160] (concat ex_mq_tags))) 77 81 \<and>
   tag_value (aux (mk_read 0 10 0 [160] (concat ex_mq_tags))) 77 81 = Some [67, 9] \<and>
   aux (sync_mq_mc (mk_read (-1) (-1) 4 [] []) (mk_read 0 10 0 [160] (concat ex_mq_tags)))
     = [77, 81, 67, 9, 88, 88, 90, 65, 0, 77, 67, 90, 42, 0]"
proof -
  let ?s = "mk_read (-1) (-1) 4 [] []"
  let ?d = "mk_read 0 10 0 [160] (concat ex_mq_tags)"
  have u: "tst (flag ?s) BAM_FUNMAP" by (simp add: mk_read_def tst_def BAM_FUNMAP_def)
  have a: "aux ?d = concat ex_mq_tags" by (simp add: mk_read_def)
  have "tag_value (aux (sync_mq_mc ?s ?d)) 77 81 = tag_value (aux ?d) 77 81"
    using C10_unmapped_source_keeps_MQ[OF u a ex_mq_tags_valid] by blast
  moreover have "tag_value (concat ex_mq_tags) 77 81
      = map_option (drop 2) (find (has_key 77 81) ex_mq_tags)"
    using ex_mq_tags_valid by (rule tag_value_valid)
  then have "tag_value (aux ?d) 77 81 = Some [67, 9]"
    unfolding a by (simp add: ex_mq_tags_def has_key_def)
  moreover have "aux (sync_mq_mc ?s ?d) = [77, 81, 67, 9, 88, 88, 90, 65, 0, 77, 67, 90, 42, 0]"
    by code_simp
  ultimately show ?thesis by blast
qed

end
